theory Spec2Isabelle
  imports Main "HOL-Library.AList" "HOL-Library.Sublist" "HOL-Library.Multiset"
begin

section \<open>Data model (authorization/permissions/Permissions.ts)\<close>

text \<open>
  The access modes of \<^verbatim>\<open>enum AccessMode\<close> together with the one mode of
  \<^verbatim>\<open>enum AclMode\<close> (\<^verbatim>\<open>control\<close>), which the readers cast into the same
  sets and objects.
\<close>

datatype AccessMode = Read | Append | Write | Create | Delete | Control

datatype CredentialGroup = public | agent

record Credential =
  webId :: "string option"

type_synonym CredentialSet = "CredentialGroup \<rightharpoonup> Credential"

text \<open>
  A \<^verbatim>\<open>Permission\<close> maps a mode to \<^verbatim>\<open>true\<close>, \<^verbatim>\<open>false\<close> or
  \<^verbatim>\<open>undefined\<close> (\<open>None\<close>); a \<^verbatim>\<open>PermissionSet\<close> has a \<^verbatim>\<open>Permission\<close> for some
  of the credential groups.
\<close>

type_synonym Permission = "AccessMode \<rightharpoonup> bool"

type_synonym PermissionSet = "CredentialGroup \<rightharpoonup> Permission"

text \<open>
  Modelled from the spec: \<^verbatim>\<open>HashMap\<close> (\<^verbatim>\<open>util/HashMap\<close>), the class that
  \<^verbatim>\<open>IdentifierMap\<close> extends, is not among the sources. The spec has an identifier-keyed
  map wrap a hash map keyed by the path string and iterate in insertion order: a
  JavaScript \<^verbatim>\<open>Map\<close> on the path strings, where \<^verbatim>\<open>set\<close> on a stored key replaces the
  value where it stands and \<^verbatim>\<open>set\<close> on a new key appends. An identifier is its path.
\<close>

type_synonym 'v IdentifierMap = "(string \<times> 'v) list"

type_synonym AccessMap = "AccessMode set IdentifierMap"

type_synonym PermissionMap = "PermissionSet IdentifierMap"

definition im_get :: "'v IdentifierMap \<Rightarrow> string \<Rightarrow> 'v option" where
  "im_get m identifier = map_of m identifier"

definition im_set :: "string \<Rightarrow> 'v \<Rightarrow> 'v IdentifierMap \<Rightarrow> 'v IdentifierMap" where
  "im_set identifier v m = AList.update identifier v m"

definition im_keys :: "'v IdentifierMap \<Rightarrow> string list" where
  "im_keys m = map fst m"

text \<open>
  \<^verbatim>\<open>new IdentifierMap(iterable)\<close>: the entries are set one after the other. The helpers
  \<^verbatim>\<open>mapIterable\<close> and \<^verbatim>\<open>concatIterables\<close> (\<^verbatim>\<open>util/IterableUtil\<close>) that build such
  iterables are \<open>map\<close> and \<open>concat\<close> on lists, as their unit test has them.
\<close>

definition IdentifierMap_of :: "(string \<times> 'v) list \<Rightarrow> 'v IdentifierMap" where
  "IdentifierMap_of entries = fold (\<lambda>(identifier, v). im_set identifier v) entries []"

text \<open>\<^verbatim>\<open>Object.entries\<close> of an object keyed by credential group.\<close>

definition group_entries :: "(CredentialGroup \<rightharpoonup> 'a) \<Rightarrow> (CredentialGroup \<times> 'a) list" where
  "group_entries obj =
     concat (map (\<lambda>g. case obj g of None \<Rightarrow> [] | Some v \<Rightarrow> [(g, v)]) [public, agent])"

text \<open>The value of one mode for one group of one identifier in a permission map.\<close>

definition permissionAt ::
  "PermissionMap \<Rightarrow> string \<Rightarrow> CredentialGroup \<Rightarrow> AccessMode \<Rightarrow> bool option" where
  "permissionAt pm identifier g mode =
     (case im_get pm identifier of
        None \<Rightarrow> None
      | Some ps \<Rightarrow> (case ps g of None \<Rightarrow> None | Some p \<Rightarrow> p mode))"

section \<open>UnionPermissionReader (authorization/UnionPermissionReader.ts)\<close>

text \<open>
  One step of the loop of \<^verbatim>\<open>applyPermissions\<close> on one key:
  \<^verbatim>\<open>if (typeof value !== 'undefined' && result[key] !== false) result[key] = value\<close>.
\<close>

definition mergeValue :: "bool option \<Rightarrow> bool option \<Rightarrow> bool option" where
  "mergeValue result v = (if v \<noteq> None \<and> result \<noteq> Some False then v else result)"

text \<open>
  \<^verbatim>\<open>applyPermissions(permissions?, result = {})\<close>: the loop over the entries of
  \<^verbatim>\<open>permissions\<close> touches each key of \<^verbatim>\<open>result\<close> on its own.
\<close>

definition applyPermissions :: "Permission option \<Rightarrow> Permission option \<Rightarrow> Permission" where
  "applyPermissions permissions result =
     (let res = (case result of None \<Rightarrow> Map.empty | Some r \<Rightarrow> r)
      in case permissions of
           None \<Rightarrow> res
         | Some p \<Rightarrow> (\<lambda>key. mergeValue (res key) (p key)))"

definition applyCredential ::
  "string \<Rightarrow> (CredentialGroup \<times> Permission) \<Rightarrow> PermissionMap \<Rightarrow> PermissionMap" where
  "applyCredential identifier entry result =
     (let resultSet = (case im_get result identifier of None \<Rightarrow> Map.empty | Some rs \<Rightarrow> rs)
      in im_set identifier
           (resultSet(fst entry \<mapsto> applyPermissions (Some (snd entry)) (resultSet (fst entry))))
           result)"

definition applyPermissionMap :: "PermissionMap \<Rightarrow> PermissionMap \<Rightarrow> PermissionMap" where
  "applyPermissionMap permissionMap result =
     fold (\<lambda>(identifier, permissionSet) res.
             fold (applyCredential identifier) (group_entries permissionSet) res)
          permissionMap result"

definition combine :: "PermissionMap list \<Rightarrow> PermissionMap" where
  "combine results = fold applyPermissionMap results []"

text \<open>An input map states the value \<open>v\<close> for a mode of a group of an identifier.\<close>

definition states :: "PermissionMap \<Rightarrow> string \<Rightarrow> CredentialGroup \<Rightarrow> AccessMode \<Rightarrow> bool \<Rightarrow> bool" where
  "states pm identifier g mode v =
     (\<exists>ps p. (identifier, ps) \<in> set pm \<and> ps g = Some p \<and> p mode = Some v)"

text \<open>Helper predicates for stating what \<^verbatim>\<open>combine\<close> returns.\<close>

definition statedValues ::
  "(CredentialGroup \<times> Permission) list \<Rightarrow> CredentialGroup \<Rightarrow> AccessMode \<Rightarrow> bool option list" where
  "statedValues es g m = map (\<lambda>e. snd e m) (filter (\<lambda>e. fst e = g) es)"

definition hasGroup :: "PermissionMap \<Rightarrow> string \<Rightarrow> CredentialGroup \<Rightarrow> bool" where
  "hasGroup pm i g = (case im_get pm i of None \<Rightarrow> False | Some ps \<Rightarrow> ps g \<noteq> None)"

definition mentions :: "PermissionMap \<Rightarrow> string \<Rightarrow> CredentialGroup \<Rightarrow> bool" where
  "mentions pm i g = (\<exists>ps p. (i, ps) \<in> set pm \<and> ps g = Some p)"

definition populated :: "PermissionMap \<Rightarrow> bool" where
  "populated pm = (\<forall>i ps. im_get pm i = Some ps \<longrightarrow> (\<exists>g. ps g \<noteq> None))"


section \<open>Errors\<close>

text \<open>
  The values the readers throw or receive: the HTTP errors of \<^verbatim>\<open>util/errors\<close> with their
  message, \<^verbatim>\<open>InternalServerError\<close> also with its \<^verbatim>\<open>cause\<close>, JavaScript's own
  \<^verbatim>\<open>TypeError\<close>, and any other \<^verbatim>\<open>Error\<close>.
\<close>

datatype thrown =
    NotFoundHttpError string
  | ForbiddenHttpError string
  | InternalServerError string thrown
  | TypeError string
  | Error string

fun isNotFoundHttpError :: "thrown \<Rightarrow> bool" where
  "isNotFoundHttpError (NotFoundHttpError _) = True"
| "isNotFoundHttpError _ = False"

text \<open>
  Modelled from the spec: \<^verbatim>\<open>createErrorMessage\<close> (\<^verbatim>\<open>util/errors/ErrorUtil\<close>) is not
  among the sources; the spec and the test of the reader print the cause of a store
  error as that error's message.
\<close>

fun createErrorMessage :: "thrown \<Rightarrow> string" where
  "createErrorMessage (NotFoundHttpError m) = m"
| "createErrorMessage (ForbiddenHttpError m) = m"
| "createErrorMessage (InternalServerError m _) = m"
| "createErrorMessage (TypeError m) = m"
| "createErrorMessage (Error m) = m"

text \<open>A loop whose body can throw: the first error ends it.\<close>

fun foldE :: "('a \<Rightarrow> 's \<Rightarrow> thrown + 's) \<Rightarrow> 'a list \<Rightarrow> 's \<Rightarrow> thrown + 's" where
  "foldE f [] s = Inr s"
| "foldE f (x # xs) s = (case f x s of Inl e \<Rightarrow> Inl e | Inr s' \<Rightarrow> foldE f xs s')"

section \<open>RDF terms and quad stores (n3)\<close>

text \<open>
  A term has a kind and a \<^verbatim>\<open>value\<close>. The readers never constrain the graph of a quad, so
  a quad is its subject, predicate and object. A string given to \<^verbatim>\<open>getSubjects\<close> or
  \<^verbatim>\<open>getObjects\<close> stands for the named node of that IRI.
\<close>

datatype Term = NamedNode string | Literal string | BlankNode string

fun termValue :: "Term \<Rightarrow> string" where
  "termValue (NamedNode v) = v"
| "termValue (Literal v) = v"
| "termValue (BlankNode v) = v"

type_synonym Quad = "Term \<times> Term \<times> Term"

type_synonym Store = "Quad list"

definition getSubjects :: "Store \<Rightarrow> Term \<Rightarrow> Term \<Rightarrow> Term list" where
  "getSubjects store p ob = remdups (map fst (filter (\<lambda>(s, p', ob'). p' = p \<and> ob' = ob) store))"

definition getObjects :: "Store \<Rightarrow> Term \<Rightarrow> Term \<Rightarrow> Term list" where
  "getObjects store s p =
     remdups (map (\<lambda>(s', p', ob'). ob') (filter (\<lambda>(s', p', ob'). s' = s \<and> p' = p) store))"

definition getQuads :: "Store \<Rightarrow> Term \<Rightarrow> Quad list" where
  "getQuads store s = filter (\<lambda>(s', p', ob'). s' = s) store"

definition RDF_type :: string where
  "RDF_type = ''http://www.w3.org/1999/02/22-rdf-syntax-ns#type''"

definition ACL_Authorization :: string where
  "ACL_Authorization = ''http://www.w3.org/ns/auth/acl#Authorization''"

definition ACL_mode :: string where
  "ACL_mode = ''http://www.w3.org/ns/auth/acl#mode''"

definition ACL_accessTo :: string where
  "ACL_accessTo = ''http://www.w3.org/ns/auth/acl#accessTo''"

definition ACL_default :: string where
  "ACL_default = ''http://www.w3.org/ns/auth/acl#default''"

definition ACL_Read :: string where
  "ACL_Read = ''http://www.w3.org/ns/auth/acl#Read''"

definition ACL_Write :: string where
  "ACL_Write = ''http://www.w3.org/ns/auth/acl#Write''"

definition ACL_Append :: string where
  "ACL_Append = ''http://www.w3.org/ns/auth/acl#Append''"

definition ACL_Control :: string where
  "ACL_Control = ''http://www.w3.org/ns/auth/acl#Control''"

section \<open>WebAclReader (authorization/WebAclReader.ts)\<close>

text \<open>The own properties of the object \<^verbatim>\<open>modesMap\<close>.\<close>

definition modesMap :: "(string \<times> AccessMode list) list" where
  "modesMap =
     [(ACL_Read, [Read]),
      (ACL_Write, [Append, Write]),
      (ACL_Append, [Append]),
      (ACL_Control, [Control])]"

text \<open>
  \<^verbatim>\<open>modesMap\<close> is an object literal, so \<^verbatim>\<open>aclMode in modesMap\<close> also holds for the
  names that every object inherits from \<^verbatim>\<open>Object.prototype\<close>. None of the inherited values
  is iterable.
\<close>

definition objectPrototypeProperties :: "string list" where
  "objectPrototypeProperties =
     [''constructor'', ''__defineGetter__'', ''__defineSetter__'', ''hasOwnProperty'',
      ''__lookupGetter__'', ''__lookupSetter__'', ''isPrototypeOf'', ''propertyIsEnumerable'',
      ''toString'', ''valueOf'', ''__proto__'', ''toLocaleString'']"

text \<open>
  The body of the loop over the modes of a rule:
  \<^verbatim>\<open>if (aclMode in modesMap) for (const mode of modesMap[aclMode]) aclPermissions[mode] = true\<close>.
\<close>

definition applyAclMode :: "string \<Rightarrow> Permission \<Rightarrow> thrown + Permission" where
  "applyAclMode aclMode aclPermissions =
     (case map_of modesMap aclMode of
        Some modes \<Rightarrow> Inr (fold (\<lambda>mode p. p(mode \<mapsto> True)) modes aclPermissions)
      | None \<Rightarrow>
          if aclMode \<in> set objectPrototypeProperties
          then Inl (TypeError ''modesMap[aclMode] is not iterable'')
          else Inr aclPermissions)"

type_synonym AccessChecker = "Store \<Rightarrow> Term \<Rightarrow> Credential \<Rightarrow> bool"

definition applyAclRule ::
  "AccessChecker \<Rightarrow> Store \<Rightarrow> Credential \<Rightarrow> Term \<Rightarrow> Permission \<Rightarrow> thrown + Permission" where
  "applyAclRule checker acl credential rule aclPermissions =
     (if checker acl rule credential
      then foldE applyAclMode (map termValue (getObjects acl rule (NamedNode ACL_mode))) aclPermissions
      else Inr aclPermissions)"

definition determinePermissions ::
  "AccessChecker \<Rightarrow> Store \<Rightarrow> Credential option \<Rightarrow> thrown + Permission" where
  "determinePermissions checker acl credential =
     (case credential of
        None \<Rightarrow> Inr Map.empty
      | Some c \<Rightarrow>
          foldE (applyAclRule checker acl c)
            (getSubjects acl (NamedNode RDF_type) (NamedNode ACL_Authorization)) Map.empty)"

text \<open>
  The collaborators of the reader: the ACL strategy, the store (with the parsing of the
  representation into quads), the identifier strategy and the access checker.
\<close>

record WebAclReader =
  getAuxiliaryIdentifier :: "string \<Rightarrow> string"
  getRepresentation :: "string \<Rightarrow> thrown + Store"
  isRootContainer :: "string \<Rightarrow> bool"
  getParentContainer :: "string \<Rightarrow> string"
  accessChecker :: AccessChecker

text \<open>An \<^verbatim>\<open>AclMatch\<close> is the identifier whose ACL resource was found, with its quads.\<close>

type_synonym AclMatch = "string \<times> Store"

text \<open>
  The functions that read from the store return, next to their result, the ACL identifiers
  requested from the store so far, in order. They return \<open>None\<close> when they do not return.
\<close>

partial_function (option) getAclRecursive ::
  "WebAclReader \<Rightarrow> string \<Rightarrow> string list \<Rightarrow> (string list \<times> (thrown + AclMatch)) option" where
  "getAclRecursive this identifier requests =
     (let acl = getAuxiliaryIdentifier this identifier;
          requests' = requests @ [acl]
      in case getRepresentation this acl of
           Inr store \<Rightarrow> Some (requests', Inr (identifier, store))
         | Inl error \<Rightarrow>
             if isNotFoundHttpError error then
               if isRootContainer this identifier
               then Some (requests', Inl (ForbiddenHttpError ''No ACL document found for root container''))
               else getAclRecursive this (getParentContainer this identifier) requests'
             else Some (requests',
                    Inl (InternalServerError
                          (''Error reading ACL for '' @ identifier @ '': '' @ createErrorMessage error)
                          error)))"

declare getAclRecursive.simps [code]

text \<open>
  Modelled from the spec: \<^verbatim>\<open>reduceIterable\<close> (\<^verbatim>\<open>util/IterableUtil\<close>) is not among the
  sources; the spec has the loop pick the target with the longest path, and the unit test
  of the helper has it fold the elements in their order from the starting value. This is
  \<^verbatim>\<open>reduceIterable(targets, fn, { path: '' })\<close> with the comparison of \<^verbatim>\<open>getAclMatches\<close>.
\<close>

definition longestTarget :: "string list \<Rightarrow> string" where
  "longestTarget targets =
     foldl (\<lambda>long identifier. if length identifier > length long then identifier else long)
       [] targets"

text \<open>
  The test of the inner loop of \<^verbatim>\<open>getAclMatches\<close>:
  \<^verbatim>\<open>longest.path.includes(target.path)\<close> and
  \<^verbatim>\<open>target.path.length >= aclMatch.identifier.path.length\<close>.
\<close>

definition usesAcl :: "string \<Rightarrow> AclMatch \<Rightarrow> string \<Rightarrow> bool" where
  "usesAcl longest aclMatch target =
     (sublist target longest \<and> length target \<ge> length (fst aclMatch))"

partial_function (option) getAclMatches_loop ::
  "WebAclReader \<Rightarrow> string list \<Rightarrow> (AclMatch \<times> string list) list \<Rightarrow> string list
     \<Rightarrow> (string list \<times> (thrown + (AclMatch \<times> string list) list)) option" where
  "getAclMatches_loop this targets storeMap requests =
     (if targets = [] then Some (requests, Inr storeMap)
      else
        let longest = longestTarget targets
        in case getAclRecursive this longest requests of
             None \<Rightarrow> None
           | Some (requests', Inl e) \<Rightarrow> Some (requests', Inl e)
           | Some (requests', Inr aclMatch) \<Rightarrow>
               getAclMatches_loop this
                 (filter (\<lambda>target. \<not> usesAcl longest aclMatch target) targets)
                 (storeMap @ [(aclMatch, filter (usesAcl longest aclMatch) targets)])
                 requests')"

declare getAclMatches_loop.simps [code]

definition getAclMatches ::
  "WebAclReader \<Rightarrow> string list
     \<Rightarrow> (string list \<times> (thrown + (AclMatch \<times> string list) list)) option" where
  "getAclMatches this targets = getAclMatches_loop this targets [] []"

definition filterStore :: "Store \<Rightarrow> string \<Rightarrow> bool \<Rightarrow> Store" where
  "filterStore store target directAcl =
     concat (map (getQuads store)
       (getSubjects store (NamedNode (if directAcl then ACL_accessTo else ACL_default))
          (NamedNode target)))"

definition filterAclMatch :: "AclMatch \<times> string list \<Rightarrow> (Store \<times> string list) list" where
  "filterAclMatch entry =
     (let identifier = fst (fst entry); store = snd (fst entry); matchedTargets = snd entry;
          directIdentifiers = filter (\<lambda>target. target = identifier) matchedTargets;
          indirectIdentifiers = filter (\<lambda>target. target \<noteq> identifier) matchedTargets
      in (if directIdentifiers \<noteq> [] then [(filterStore store identifier True, directIdentifiers)]
          else [])
         @ (if indirectIdentifiers \<noteq> []
            then [(filterStore store identifier False, indirectIdentifiers)] else []))"

definition filterAclMap :: "(AclMatch \<times> string list) list \<Rightarrow> (Store \<times> string list) list" where
  "filterAclMap aclMap = concat (map filterAclMatch aclMap)"

definition findPermissionsEntry ::
  "WebAclReader \<Rightarrow> CredentialSet \<Rightarrow> Store \<times> string list \<Rightarrow> PermissionMap
     \<Rightarrow> thrown + PermissionMap" where
  "findPermissionsEntry this credentials entry result =
     (case determinePermissions (accessChecker this) (fst entry) (credentials public) of
        Inl e \<Rightarrow> Inl e
      | Inr publicPermissions \<Rightarrow>
          (case determinePermissions (accessChecker this) (fst entry) (credentials agent) of
             Inl e \<Rightarrow> Inl e
           | Inr agentPermissions \<Rightarrow>
               Inr (fold (\<lambda>identifier.
                            im_set identifier [public \<mapsto> publicPermissions, agent \<mapsto> agentPermissions])
                      (snd entry) result)))"

definition findPermissions ::
  "WebAclReader \<Rightarrow> (Store \<times> string list) list \<Rightarrow> CredentialSet \<Rightarrow> thrown + PermissionMap" where
  "findPermissions this aclMap credentials =
     foldE (findPermissionsEntry this credentials) aclMap []"

definition WebAclReader_handle ::
  "WebAclReader \<Rightarrow> CredentialSet \<Rightarrow> AccessMap \<Rightarrow> (string list \<times> (thrown + PermissionMap)) option" where
  "WebAclReader_handle this credentials accessMap =
     (case getAclMatches this (im_keys accessMap) of
        None \<Rightarrow> None
      | Some (requests, Inl e) \<Rightarrow> Some (requests, Inl e)
      | Some (requests, Inr aclMap) \<Rightarrow>
          Some (requests, findPermissions this (filterAclMap aclMap) credentials))"

section \<open>Predicates for the properties of WebAclReader\<close>

text \<open>
  The contract of the identifier strategy at an identifier: going from it to its parent
  container, each step leads to a shorter path, and a root container is reached within
  the given number of steps.
\<close>

fun reachesRoot :: "WebAclReader \<Rightarrow> nat \<Rightarrow> string \<Rightarrow> bool" where
  "reachesRoot this 0 p = isRootContainer this p"
| "reachesRoot this (Suc n) p =
     (isRootContainer this p \<or>
      (length (getParentContainer this p) < length p \<and> reachesRoot this n (getParentContainer this p)))"

text \<open>
  The identifiers that one call of \<^verbatim>\<open>getAclRecursive\<close> visits: from the identifier up,
  as long as the ACL resource is not found and the identifier is not a root container.
\<close>

fun aclWalk :: "WebAclReader \<Rightarrow> string \<Rightarrow> string list \<Rightarrow> bool" where
  "aclWalk this i [] = False"
| "aclWalk this i [x] = (x = i)"
| "aclWalk this i (x # y # ys) =
     (x = i \<and> \<not> isRootContainer this i
      \<and> (\<exists>e. getRepresentation this (getAuxiliaryIdentifier this i) = Inl e \<and> isNotFoundHttpError e)
      \<and> aclWalk this (getParentContainer this i) (y # ys))"

text \<open>What \<^verbatim>\<open>getAclRecursive\<close> returns or throws at the identifier where it stops.\<close>

definition aclOutcome :: "WebAclReader \<Rightarrow> string \<Rightarrow> thrown + AclMatch \<Rightarrow> bool" where
  "aclOutcome this a r =
     (case getRepresentation this (getAuxiliaryIdentifier this a) of
        Inr store \<Rightarrow> r = Inr (a, store)
      | Inl e \<Rightarrow>
          if isNotFoundHttpError e
          then isRootContainer this a \<and> r = Inl (ForbiddenHttpError ''No ACL document found for root container'')
          else r = Inl (InternalServerError (''Error reading ACL for '' @ a @ '': '' @ createErrorMessage e) e))"

text \<open>The errors of the ACL discovery.\<close>

definition discoveryError :: "WebAclReader \<Rightarrow> thrown \<Rightarrow> bool" where
  "discoveryError this e =
     (e = ForbiddenHttpError ''No ACL document found for root container''
      \<or> (\<exists>path cause.
            e = InternalServerError
                  (''Error reading ACL for '' @ path @ '': '' @ createErrorMessage cause) cause
            \<and> \<not> isNotFoundHttpError cause
            \<and> getRepresentation this (getAuxiliaryIdentifier this path) = Inl cause))"


text \<open>The targets that a map from ACL data to identifiers holds.\<close>

definition claimedTargets :: "('a \<times> string list) list \<Rightarrow> string set" where
  "claimedTargets m = set (concat (map snd m))"

text \<open>Every entry of a permission map has a \<^verbatim>\<open>Permission\<close> for both credential groups.\<close>

definition bothGroups :: "PermissionMap \<Rightarrow> bool" where
  "bothGroups pm = (\<forall>identifier ps. im_get pm identifier = Some ps \<longrightarrow> dom ps = {public, agent})"

text \<open>
  The values of the \<^verbatim>\<open>acl:mode\<close> objects of the rules that the access checker accepts,
  the generic modes that \<^verbatim>\<open>modesMap\<close> gives for such a value, and the values that are
  no own property of \<^verbatim>\<open>modesMap\<close> but an inherited one.
\<close>

definition acceptedModes :: "AccessChecker \<Rightarrow> Store \<Rightarrow> Credential \<Rightarrow> string list" where
  "acceptedModes checker acl c =
     concat (map (\<lambda>rule. if checker acl rule c
                          then map termValue (getObjects acl rule (NamedNode ACL_mode)) else [])
       (getSubjects acl (NamedNode RDF_type) (NamedNode ACL_Authorization)))"

definition modesOf :: "string \<Rightarrow> AccessMode set" where
  "modesOf aclMode = (case map_of modesMap aclMode of Some modes \<Rightarrow> set modes | None \<Rightarrow> {})"

definition inheritedOnly :: "string \<Rightarrow> bool" where
  "inheritedOnly aclMode =
     (map_of modesMap aclMode = None \<and> aclMode \<in> set objectPrototypeProperties)"

section \<open>The collaborators of the unit tests\<close>

text \<open>
  The unit test of the reader (\<^verbatim>\<open>test/unit/authorization/WebAclReader.test.ts\<close>) uses
  the ACL strategy that appends \<^verbatim>\<open>.acl\<close> and a single-root identifier strategy with the
  base \<^verbatim>\<open>http://example.com/\<close>, where the parent container of a path is the path
  without its last segment.
\<close>

definition parentPath :: "string \<Rightarrow> string" where
  "parentPath p = rev (dropWhile (\<lambda>c. c \<noteq> CHR ''/'') (tl (rev p)))"

definition testReader :: "(string \<Rightarrow> thrown + Store) \<Rightarrow> AccessChecker \<Rightarrow> WebAclReader" where
  "testReader store checker =
     \<lparr> getAuxiliaryIdentifier = (\<lambda>p. p @ ''.acl''),
       getRepresentation = store,
       isRootContainer = (\<lambda>p. p = ''http://example.com/''),
       getParentContainer = parentPath,
       accessChecker = checker \<rparr>"

text \<open>An authorization with one target and one mode, as the tests write them.\<close>

definition authorization :: "string \<Rightarrow> string \<Rightarrow> string \<Rightarrow> Term \<Rightarrow> Quad list" where
  "authorization rule predicate target mode =
     [(NamedNode rule, NamedNode RDF_type, NamedNode ACL_Authorization),
      (NamedNode rule, NamedNode predicate, NamedNode target),
      (NamedNode rule, NamedNode ACL_mode, mode)]"

text \<open>A store that holds one ACL resource, for the root container, and no other.\<close>

definition rootAclStore :: "string \<Rightarrow> thrown + Store" where
  "rootAclStore acl =
     (if acl = ''http://example.com/.acl''
      then Inr (authorization ''auth'' ACL_default ''http://example.com/'' (NamedNode ACL_Read))
      else Inl (NotFoundHttpError []))"

text \<open>
  The ACL strategy of the unit tests: an ACL identifier ends in \<^verbatim>\<open>.acl\<close>, its subject
  is the path without these four characters (\<^verbatim>\<open>path.slice(0, -4)\<close>).
\<close>

definition isAclIdentifier :: "string \<Rightarrow> bool" where
  "isAclIdentifier p = suffix ''.acl'' p"

definition aclSubject :: "string \<Rightarrow> string" where
  "aclSubject p = take (length p - 4) p"

section \<open>PermissionUtil (authorization/permissions/PermissionUtil.ts)\<close>

definition addAccessModes :: "string \<Rightarrow> AccessMode set \<Rightarrow> AccessMap \<Rightarrow> AccessMap" where
  "addAccessModes identifier modes accessMap =
     (case im_get accessMap identifier of
        Some storedModes \<Rightarrow> im_set identifier (modes \<union> storedModes) accessMap
      | None \<Rightarrow> im_set identifier modes accessMap)"

text \<open>
  The readers build \<^verbatim>\<open>remove\<close> from the key objects of the access map they iterate, so
  membership of a key object is membership of its path.
\<close>

definition updateAccessMap ::
  "(string \<times> AccessMode set) list \<Rightarrow> string set \<Rightarrow> AccessMap \<Rightarrow> AccessMap" where
  "updateAccessMap add remove mapEntries =
     fold (\<lambda>(identifier, modes). addAccessModes identifier modes) add
       (fold (\<lambda>(identifier, modes) result.
                if identifier \<in> remove then result else im_set identifier modes result)
          mapEntries [])"

section \<open>IntermediateModesExtractor (authorization/permissions/IntermediateModesExtractor.ts)\<close>

text \<open>
  The loop of \<^verbatim>\<open>handle\<close> iterates the access map while it adds to it. The iterator of a
  JavaScript \<^verbatim>\<open>Map\<close> is live: it visits the entries in insertion order by position, an
  entry appended during the loop is visited later, and an entry whose value is replaced
  keeps its position. \<open>i\<close> is the position of the iterator.
\<close>

partial_function (option) addIntermediateModes ::
  "(string \<Rightarrow> bool) \<Rightarrow> (string \<Rightarrow> string) \<Rightarrow> nat \<Rightarrow> AccessMap \<Rightarrow> AccessMap option" where
  "addIntermediateModes hasResource parentContainer i accessMap =
     (if i < length accessMap then
        (if Create \<in> snd (accessMap ! i)
            \<and> \<not> hasResource (parentContainer (fst (accessMap ! i)))
         then addIntermediateModes hasResource parentContainer (Suc i)
                (addAccessModes (parentContainer (fst (accessMap ! i))) {Create} accessMap)
         else addIntermediateModes hasResource parentContainer (Suc i) accessMap)
      else Some accessMap)"

declare addIntermediateModes.simps [code]

text \<open>\<^verbatim>\<open>handle\<close>, given what the source extractor returns or throws for the operation.\<close>

definition IntermediateModesExtractor_handle ::
  "(string \<Rightarrow> bool) \<Rightarrow> (string \<Rightarrow> string) \<Rightarrow> thrown + AccessMap \<Rightarrow> (thrown + AccessMap) option" where
  "IntermediateModesExtractor_handle hasResource parentContainer source =
     (case source of
        Inl e \<Rightarrow> Some (Inl e)
      | Inr accessMap \<Rightarrow> map_option Inr (addIntermediateModes hasResource parentContainer 0 accessMap))"

section \<open>Permission readers\<close>

text \<open>
  \<^verbatim>\<open>handleSafe\<close> of a \<^verbatim>\<open>PermissionReader\<close>: from the credentials and the access map to a
  permission map, or an error.
\<close>

type_synonym PermissionReader = "CredentialSet \<Rightarrow> AccessMap \<Rightarrow> thrown + PermissionMap"

section \<open>AllStaticReader (authorization/AllStaticReader.ts)\<close>

definition AllStaticReader_permissions :: "bool \<Rightarrow> Permission" where
  "AllStaticReader_permissions allow =
     [Read \<mapsto> allow, Write \<mapsto> allow, Append \<mapsto> allow, Create \<mapsto> allow, Delete \<mapsto> allow]"

definition mapCredentials :: "bool \<Rightarrow> CredentialSet \<Rightarrow> PermissionSet" where
  "mapCredentials allow credentials =
     (\<lambda>group. case credentials group of
                None \<Rightarrow> None
              | Some _ \<Rightarrow> Some (AllStaticReader_permissions allow))"

definition AllStaticReader_handle :: "bool \<Rightarrow> PermissionReader" where
  "AllStaticReader_handle allow credentials accessMap =
     Inr (IdentifierMap_of
            (map (\<lambda>identifier. (identifier, mapCredentials allow credentials)) (im_keys accessMap)))"

section \<open>WebAclAuxiliaryReader (authorization/WebAclAuxiliaryReader.ts)\<close>

definition findAcl ::
  "(string \<Rightarrow> bool) \<Rightarrow> (string \<Rightarrow> string) \<Rightarrow> AccessMap
     \<Rightarrow> (string \<times> string \<times> AccessMode set) list" where
  "findAcl isAuxiliaryIdentifier getSubjectIdentifier accessMap =
     map (\<lambda>identifier. (identifier, getSubjectIdentifier identifier, {Control}))
       (filter isAuxiliaryIdentifier (im_keys accessMap))"

definition WebAclAuxiliaryReader_updatePermission :: "PermissionSet option \<Rightarrow> PermissionSet" where
  "WebAclAuxiliaryReader_updatePermission permissionSet =
     (case permissionSet of
        None \<Rightarrow> Map.empty
      | Some ps \<Rightarrow>
          (\<lambda>group. case ps group of
                     None \<Rightarrow> None
                   | Some permissions \<Rightarrow>
                       Some (\<lambda>mode. if mode \<in> {Read, Append, Write, Control}
                                    then permissions Control else None)))"

definition WebAclAuxiliaryReader_handle ::
  "PermissionReader \<Rightarrow> (string \<Rightarrow> bool) \<Rightarrow> (string \<Rightarrow> string) \<Rightarrow> PermissionReader" where
  "WebAclAuxiliaryReader_handle reader isAuxiliaryIdentifier getSubjectIdentifier credentials accessMap =
     (let aclMap = findAcl isAuxiliaryIdentifier getSubjectIdentifier accessMap
      in if aclMap = [] then reader credentials accessMap
         else
           let updatedMap = updateAccessMap (map snd aclMap) (set (map fst aclMap)) accessMap
           in case reader credentials updatedMap of
                Inl e \<Rightarrow> Inl e
              | Inr result \<Rightarrow>
                  Inr (fold (\<lambda>(identifier, subject, modes) result.
                               im_set identifier
                                 (WebAclAuxiliaryReader_updatePermission (im_get result subject))
                                 result)
                         aclMap result))"

section \<open>AuxiliaryReader (authorization/AuxiliaryReader.ts)\<close>

definition findAuxiliary ::
  "(string \<Rightarrow> bool) \<Rightarrow> (string \<Rightarrow> bool) \<Rightarrow> (string \<Rightarrow> string) \<Rightarrow> AccessMap
     \<Rightarrow> (string \<times> string \<times> AccessMode set) list" where
  "findAuxiliary isAuxiliaryIdentifier usesOwnAuthorization getSubjectIdentifier accessMap =
     map (\<lambda>(identifier, modes). (identifier, getSubjectIdentifier identifier, modes))
       (filter (\<lambda>(identifier, modes).
                  isAuxiliaryIdentifier identifier \<and> \<not> usesOwnAuthorization identifier)
          accessMap)"

definition AuxiliaryReader_handle ::
  "PermissionReader \<Rightarrow> (string \<Rightarrow> bool) \<Rightarrow> (string \<Rightarrow> bool) \<Rightarrow> (string \<Rightarrow> string)
     \<Rightarrow> PermissionReader" where
  "AuxiliaryReader_handle reader isAuxiliaryIdentifier usesOwnAuthorization getSubjectIdentifier
       credentials accessMap =
     (let auxMap = findAuxiliary isAuxiliaryIdentifier usesOwnAuthorization getSubjectIdentifier
                     accessMap
      in if auxMap = [] then reader credentials accessMap
         else
           let updatedMap = updateAccessMap (map snd auxMap) (set (map fst auxMap)) accessMap
           in case reader credentials updatedMap of
                Inl e \<Rightarrow> Inl e
              | Inr result \<Rightarrow>
                  Inr (fold (\<lambda>(identifier, subject, modes) result.
                               im_set identifier
                                 (case im_get result subject of None \<Rightarrow> Map.empty | Some ps \<Rightarrow> ps)
                                 result)
                         auxMap result))"

section \<open>PathBasedReader (authorization/PathBasedReader.ts)\<close>

text \<open>
  Modelled from the spec: \<^verbatim>\<open>ensureTrailingSlash\<close> and \<^verbatim>\<open>trimTrailingSlashes\<close>
  (\<^verbatim>\<open>util/PathUtil\<close>) are not among the sources. The first makes a path end in exactly
  one slash, the second removes the slashes at its end.
\<close>

definition trimTrailingSlashes :: "string \<Rightarrow> string" where
  "trimTrailingSlashes path = rev (dropWhile (\<lambda>c. c = CHR ''/'') (rev path))"

definition ensureTrailingSlash :: "string \<Rightarrow> string" where
  "ensureTrailingSlash path = trimTrailingSlashes path @ ''/''"

text \<open>
  A regular expression is its \<^verbatim>\<open>test\<close> function. The sub-readers are objects; two paths
  can lead to the same reader object, so a reader is named by a number.
\<close>

type_synonym RegExp = "string \<Rightarrow> bool"

record PathBasedReader =
  baseUrl :: string
  paths :: "(RegExp \<times> nat) list"

definition PathBasedReader_new :: "string \<Rightarrow> (RegExp \<times> nat) list \<Rightarrow> PathBasedReader" where
  "PathBasedReader_new base entries = \<lparr> baseUrl = ensureTrailingSlash base, paths = entries \<rparr>"

definition findReader :: "PathBasedReader \<Rightarrow> string \<Rightarrow> nat option" where
  "findReader this path =
     (if prefix (baseUrl this) path then
        (let relative = drop (length (trimTrailingSlashes (baseUrl this))) path
         in map_option snd (find (\<lambda>(regex, reader). regex relative) (paths this)))
      else None)"

definition matchReaders :: "PathBasedReader \<Rightarrow> AccessMap \<Rightarrow> (nat \<times> AccessMap) list" where
  "matchReaders this accessMap =
     fold (\<lambda>(identifier, modes) result.
             case findReader this identifier of
               None \<Rightarrow> result
             | Some reader \<Rightarrow>
                 (let matches = (case map_of result reader of None \<Rightarrow> [] | Some m \<Rightarrow> m)
                  in AList.update reader (im_set identifier modes matches) result))
       accessMap []"

definition PathBasedReader_handle ::
  "PathBasedReader \<Rightarrow> (nat \<Rightarrow> PermissionReader) \<Rightarrow> PermissionReader" where
  "PathBasedReader_handle this readerOf credentials accessMap =
     (case foldE (\<lambda>(reader, matches) results.
                    case readerOf reader credentials matches of
                      Inl e \<Rightarrow> Inl e
                    | Inr r \<Rightarrow> Inr (results @ [r]))
             (matchReaders this accessMap) [] of
        Inl e \<Rightarrow> Inl e
      | Inr results \<Rightarrow> Inr (IdentifierMap_of (concat results)))"

section \<open>ParentContainerReader (authorization/ParentContainerReader.ts)\<close>

text \<open>
  \<^verbatim>\<open>updatePermission\<close> copies the PermissionSet it is given but assigns into the
  \<^verbatim>\<open>Permission\<close> objects that this set holds, which are the objects of the result of the
  inner reader. Other entries of that result can hold the same objects
  (\<^verbatim>\<open>WebAclReader.findPermissions\<close> gives one pair of objects to every identifier under the
  same ACL), and an object can be frozen (\<^verbatim>\<open>AllStaticReader\<close>). So for this reader the
  \<^verbatim>\<open>Permission\<close> objects live in a store, a PermissionSet holds references, and an
  assignment to a frozen object throws (the modules are strict code).
\<close>

type_synonym ref = nat

record Heap =
  permissionOf :: "ref \<Rightarrow> Permission"
  isFrozen :: "ref \<Rightarrow> bool"
  nextRef :: ref

type_synonym PermissionRefSet = "CredentialGroup \<rightharpoonup> ref"

type_synonym PermissionRefMap = "PermissionRefSet IdentifierMap"

type_synonym HeapReader =
  "CredentialSet \<Rightarrow> AccessMap \<Rightarrow> Heap \<Rightarrow> thrown + (PermissionRefMap \<times> Heap)"

text \<open>A new empty object \<^verbatim>\<open>{}\<close>.\<close>

definition newPermission :: "Heap \<Rightarrow> ref \<times> Heap" where
  "newPermission heap =
     (nextRef heap,
      heap \<lparr> permissionOf := (permissionOf heap)(nextRef heap := Map.empty),
             isFrozen := (isFrozen heap)(nextRef heap := False),
             nextRef := Suc (nextRef heap) \<rparr>)"

text \<open>\<^verbatim>\<open>object[mode] = v\<close>.\<close>

definition assignMode :: "ref \<Rightarrow> AccessMode \<Rightarrow> bool option \<Rightarrow> Heap \<Rightarrow> thrown + Heap" where
  "assignMode r mode v heap =
     (if isFrozen heap r
      then Inl (TypeError ''Cannot assign to read only property'')
      else Inr (heap \<lparr> permissionOf := (permissionOf heap)(r := (permissionOf heap r)(mode := v)) \<rparr>))"

text \<open>\<^verbatim>\<open>a && b\<close> on values that are \<^verbatim>\<open>true\<close>, \<^verbatim>\<open>false\<close> or \<^verbatim>\<open>undefined\<close>.\<close>

definition jsAnd :: "bool option \<Rightarrow> bool option \<Rightarrow> bool option" where
  "jsAnd a b = (if a = Some True then b else a)"

definition findParents ::
  "(string \<Rightarrow> string) \<Rightarrow> AccessMap \<Rightarrow> (string \<times> string \<times> AccessMode set) list" where
  "findParents parentContainer accessMap =
     map (\<lambda>(identifier, modes).
            (identifier, parentContainer identifier,
             (if Create \<in> modes then {Append} else {}) \<union> (if Delete \<in> modes then {Write} else {})))
       (filter (\<lambda>(identifier, modes). Create \<in> modes \<or> Delete \<in> modes) accessMap)"

text \<open>The body of the loop of \<^verbatim>\<open>updatePermission\<close> for one group of the container.\<close>

definition updateGroup ::
  "CredentialGroup \<times> ref \<Rightarrow> PermissionRefSet \<times> Heap \<Rightarrow> thrown + (PermissionRefSet \<times> Heap)" where
  "updateGroup entry state =
     (let group = fst entry; containerPermissions = snd entry;
          permissionSet = fst state; heap = snd state;
          (permissions, heap1) =
            (case permissionSet group of Some r \<Rightarrow> (r, heap) | None \<Rightarrow> newPermission heap)
      in case assignMode permissions Create
                (jsAnd (permissionOf heap1 containerPermissions Append)
                   (Some (permissionOf heap1 permissions Create \<noteq> Some False)))
                heap1 of
           Inl e \<Rightarrow> Inl e
         | Inr heap2 \<Rightarrow>
             (case assignMode permissions Delete
                     (jsAnd (jsAnd (permissionOf heap2 permissions Write)
                               (permissionOf heap2 containerPermissions Write))
                        (Some (permissionOf heap2 permissions Delete \<noteq> Some False)))
                     heap2 of
                Inl e \<Rightarrow> Inl e
              | Inr heap3 \<Rightarrow> Inr (permissionSet(group \<mapsto> permissions), heap3)))"

definition ParentContainerReader_updatePermission ::
  "PermissionRefSet option \<Rightarrow> PermissionRefSet option \<Rightarrow> Heap
     \<Rightarrow> thrown + (PermissionRefSet \<times> Heap)" where
  "ParentContainerReader_updatePermission permissionSet containerSet heap =
     foldE updateGroup
       (group_entries (case containerSet of None \<Rightarrow> Map.empty | Some cs \<Rightarrow> cs))
       (case permissionSet of None \<Rightarrow> Map.empty | Some ps \<Rightarrow> ps, heap)"

definition updateChild ::
  "string \<times> string \<times> AccessMode set \<Rightarrow> PermissionRefMap \<times> Heap
     \<Rightarrow> thrown + (PermissionRefMap \<times> Heap)" where
  "updateChild entry state =
     (let identifier = fst entry; container = fst (snd entry);
          result = fst state; heap = snd state
      in case ParentContainerReader_updatePermission
                (im_get result identifier) (im_get result container) heap of
           Inl e \<Rightarrow> Inl e
         | Inr (permissionSet, heap') \<Rightarrow> Inr (im_set identifier permissionSet result, heap'))"

definition ParentContainerReader_handle :: "HeapReader \<Rightarrow> (string \<Rightarrow> string) \<Rightarrow> HeapReader" where
  "ParentContainerReader_handle reader parentContainer credentials accessMap heap =
     (let containerMap = findParents parentContainer accessMap
      in if containerMap = [] then reader credentials accessMap heap
         else
           let updatedMap = updateAccessMap (map snd containerMap) {} accessMap
           in case reader credentials updatedMap heap of
                Inl e \<Rightarrow> Inl e
              | Inr (result, heap') \<Rightarrow> foldE updateChild containerMap (result, heap'))"

section \<open>Steps of the loops of the readers\<close>

text \<open>The body of the loop of \<^verbatim>\<open>WebAclAuxiliaryReader.handle\<close> over the ACL identifiers.\<close>

definition setAclPermission ::
  "string \<times> string \<times> AccessMode set \<Rightarrow> PermissionMap \<Rightarrow> PermissionMap" where
  "setAclPermission = (\<lambda>(identifier, subject, modes) result.
      im_set identifier (WebAclAuxiliaryReader_updatePermission (im_get result subject)) result)"

section \<open>Predicates for the properties of ParentContainerReader\<close>

text \<open>
  What the two assignments of \<^verbatim>\<open>updatePermission\<close> make of the Permission \<open>P\<close> of the
  resource, given the Permission \<open>C\<close> of its container.
\<close>

definition childPermission :: "Permission \<Rightarrow> Permission \<Rightarrow> Permission" where
  "childPermission P C =
     P(Create := jsAnd (C Append) (Some (P Create \<noteq> Some False)),
       Delete := jsAnd (jsAnd (P Write) (C Write)) (Some (P Delete \<noteq> Some False)))"

text \<open>
  From one store to the next no object is lost, the old objects stay frozen or not, and
  only the modes \<^verbatim>\<open>create\<close> and \<^verbatim>\<open>delete\<close> of an old object can differ.
\<close>

definition onlyCreateDelete :: "Heap \<Rightarrow> Heap \<Rightarrow> bool" where
  "onlyCreateDelete h h' =
     (nextRef h \<le> nextRef h'
      \<and> (\<forall>r<nextRef h. isFrozen h' r = isFrozen h r
            \<and> (\<forall>mode. mode \<noteq> Create \<and> mode \<noteq> Delete \<longrightarrow>
                  permissionOf h' r mode = permissionOf h r mode)))"

text \<open>The PermissionSet of an identifier in a result, empty when there is none.\<close>

definition setAt :: "PermissionRefMap \<Rightarrow> string \<Rightarrow> PermissionRefSet" where
  "setAt result identifier = (case im_get result identifier of None \<Rightarrow> Map.empty | Some ps \<Rightarrow> ps)"

text \<open>
  No \<^verbatim>\<open>Permission\<close> object of a result is frozen or held twice (by two entries or for
  two groups), and every reference is to an object of the store.
\<close>

definition unshared :: "PermissionRefMap \<Rightarrow> Heap \<Rightarrow> bool" where
  "unshared result h =
     ((\<forall>k g r. setAt result k g = Some r \<longrightarrow> r < nextRef h \<and> \<not> isFrozen h r)
      \<and> (\<forall>k g k' g'. setAt result k g \<noteq> None \<and> setAt result k g = setAt result k' g' \<longrightarrow>
            k = k' \<and> g = g'))"

text \<open>
  A PermissionSet whose references are to objects of the store that are not frozen, no
  two of them to the same object; and the Permission that a PermissionSet has for a
  group before \<^verbatim>\<open>updatePermission\<close>, the empty one when it has none.
\<close>

definition validSet :: "PermissionRefSet \<Rightarrow> Heap \<Rightarrow> bool" where
  "validSet ps h = ((\<forall>g r. ps g = Some r \<longrightarrow> r < nextRef h \<and> \<not> isFrozen h r) \<and> inj_on ps (dom ps))"

definition initialPermission :: "PermissionRefSet \<Rightarrow> Heap \<Rightarrow> CredentialGroup \<Rightarrow> Permission" where
  "initialPermission ps h g = (case ps g of Some r0 \<Rightarrow> permissionOf h r0 | None \<Rightarrow> Map.empty)"

section \<open>Predicates for the keys of the results\<close>

text \<open>
  A reader reports only on identifiers of the access map it is given: whenever it
  returns, the keys of its result are keys of its input.
\<close>

definition reportsOnInput :: "PermissionReader \<Rightarrow> bool" where
  "reportsOnInput reader =
     (\<forall>credentials accessMap result.
         reader credentials accessMap = Inr result \<longrightarrow>
           set (im_keys result) \<subseteq> set (im_keys accessMap))"

text \<open>
  A result whose \<^verbatim>\<open>Permission\<close> objects live in a store, read as a permission map; and a
  reader over a store, started on a given store, as a reader.
\<close>

definition PermissionMap_of :: "PermissionRefMap \<Rightarrow> Heap \<Rightarrow> PermissionMap" where
  "PermissionMap_of result heap =
     map (\<lambda>(identifier, permissionSet).
            (identifier, (\<lambda>g. map_option (permissionOf heap) (permissionSet g))))
       result"

definition readerOn :: "Heap \<Rightarrow> HeapReader \<Rightarrow> PermissionReader" where
  "readerOn heap reader credentials accessMap =
     (case reader credentials accessMap heap of
        Inl e \<Rightarrow> Inl e
      | Inr (result, heap') \<Rightarrow> Inr (PermissionMap_of result heap'))"

section \<open>Predicates for the properties of IntermediateModesExtractor\<close>

text \<open>
  The containers above an identifier that do not exist, from its parent container up to,
  and without, the first container that exists, on at most \<open>n\<close> steps; and the contract
  under which the walk ends: each step to the parent container leads to a shorter path,
  and a container that exists is reached within \<open>n\<close> steps.
\<close>

fun missingContainers :: "(string \<Rightarrow> bool) \<Rightarrow> (string \<Rightarrow> string) \<Rightarrow> nat \<Rightarrow> string \<Rightarrow> string list" where
  "missingContainers hasResource parentContainer 0 identifier = []"
| "missingContainers hasResource parentContainer (Suc n) identifier =
     (if hasResource (parentContainer identifier) then []
      else parentContainer identifier
             # missingContainers hasResource parentContainer n (parentContainer identifier))"

fun reachesExisting :: "(string \<Rightarrow> bool) \<Rightarrow> (string \<Rightarrow> string) \<Rightarrow> nat \<Rightarrow> string \<Rightarrow> bool" where
  "reachesExisting hasResource parentContainer 0 identifier = False"
| "reachesExisting hasResource parentContainer (Suc n) identifier =
     (hasResource (parentContainer identifier)
      \<or> (length (parentContainer identifier) < length identifier
          \<and> reachesExisting hasResource parentContainer n (parentContainer identifier)))"

section \<open>Properties of UnionPermissionReader\<close>

lemma mergeValue_cases:
  "mergeValue a b = (if a = Some False \<or> b = Some False then Some False
                     else if a = Some True \<or> b = Some True then Some True else None)"
  by (cases a; cases b; auto simp: mergeValue_def)

lemma foldl_mergeValue:
  "foldl mergeValue a vs =
     (if a = Some False \<or> Some False \<in> set vs then Some False
      else if a = Some True \<or> Some True \<in> set vs then Some True else None)"
proof (induction vs arbitrary: a)
  case Nil
  then show ?case by (cases a) auto
next
  case (Cons v vs)
  have "foldl mergeValue a (v # vs) = foldl mergeValue (mergeValue a v) vs" by simp
  also note Cons.IH [of "mergeValue a v"]
  finally show ?case using mergeValue_cases [of a v] by (cases a; cases v) auto
qed

lemma im_get_im_set: "im_get (im_set k v m) k' = (if k' = k then Some v else im_get m k')"
  by (simp add: im_get_def im_set_def update_conv')

lemma permissionAt_applyCredential:
  "permissionAt (applyCredential i e res) i' g' m =
     (if i' = i \<and> g' = fst e then mergeValue (permissionAt res i g' m) (snd e m)
      else permissionAt res i' g' m)"
  by (auto simp: permissionAt_def applyCredential_def Let_def im_get_im_set applyPermissions_def
        mergeValue_def split: option.splits)

lemma permissionAt_fold_applyCredential:
  "permissionAt (fold (applyCredential i) es res) i' g m =
     (if i' = i then foldl mergeValue (permissionAt res i g m) (statedValues es g m)
      else permissionAt res i' g m)"
  by (induction es arbitrary: res) (auto simp: permissionAt_applyCredential statedValues_def)

lemma group_entries_iff: "(g, p) \<in> set (group_entries ps) \<longleftrightarrow> ps g = Some p"
  by (cases g) (auto simp: group_entries_def split: option.splits)

lemma set_statedValues_group_entries:
  "set (statedValues (group_entries ps) g m) = (case ps g of None \<Rightarrow> {} | Some p \<Rightarrow> {p m})"
  by (cases g) (auto simp: statedValues_def group_entries_def split: option.splits)

lemma permissionAt_applyPermissionMap:
  "permissionAt (applyPermissionMap pm res) i g m =
     (if permissionAt res i g m = Some False \<or> states pm i g m False then Some False
      else if permissionAt res i g m = Some True \<or> states pm i g m True then Some True
      else None)"
  unfolding applyPermissionMap_def
proof (induction pm arbitrary: res)
  case Nil
  then show ?case by (cases "permissionAt res i g m") (auto simp: states_def)
next
  case (Cons e pm)
  obtain i' ps where e: "e = (i', ps)" by (cases e)
  have st: "states (e # pm) i g m v \<longleftrightarrow> (i' = i \<and> (\<exists>p. ps g = Some p \<and> p m = Some v)) \<or> states pm i g m v" for v
    by (auto simp: states_def e)
  show ?case
    unfolding fold_Cons comp_def Cons.IH st
    by (auto simp: e permissionAt_fold_applyCredential foldl_mergeValue set_statedValues_group_entries
        split: option.splits)
qed

lemma permissionAt_fold_applyPermissionMap:
  "permissionAt (fold applyPermissionMap rs res) i g m =
     (if permissionAt res i g m = Some False \<or> (\<exists>pm\<in>set rs. states pm i g m False) then Some False
      else if permissionAt res i g m = Some True \<or> (\<exists>pm\<in>set rs. states pm i g m True) then Some True
      else None)"
proof (induction rs arbitrary: res)
  case Nil
  then show ?case by (cases "permissionAt res i g m") auto
next
  case (Cons pm rs)
  show ?case unfolding fold_Cons comp_def Cons.IH permissionAt_applyPermissionMap
    by auto
qed

lemma permissionAt_combine:
  "permissionAt (combine rs) i g m =
     (if (\<exists>pm\<in>set rs. states pm i g m False) then Some False
      else if (\<exists>pm\<in>set rs. states pm i g m True) then Some True
      else None)"
  unfolding combine_def permissionAt_fold_applyPermissionMap
  by (simp add: permissionAt_def im_get_def)


lemma hasGroup_applyCredential:
  "hasGroup (applyCredential i e res) i' g' \<longleftrightarrow> (i' = i \<and> g' = fst e) \<or> hasGroup res i' g'"
  by (auto simp: hasGroup_def applyCredential_def Let_def im_get_im_set split: option.splits)

lemma populated_applyCredential: "populated res \<Longrightarrow> populated (applyCredential i e res)"
  by (auto simp: populated_def applyCredential_def Let_def im_get_im_set split: option.splits if_splits)

lemma populated_fold_applyCredential: "populated res \<Longrightarrow> populated (fold (applyCredential i) es res)"
  by (induction es arbitrary: res) (auto simp: populated_applyCredential)

lemma hasGroup_fold_applyCredential:
  "hasGroup (fold (applyCredential i) es res) i' g \<longleftrightarrow>
     (i' = i \<and> g \<in> fst ` set es) \<or> hasGroup res i' g"
  by (induction es arbitrary: res) (auto simp: hasGroup_applyCredential)

lemma fst_group_entries: "g \<in> fst ` set (group_entries ps) \<longleftrightarrow> ps g \<noteq> None"
proof -
  have "g \<in> fst ` set (group_entries ps) \<longleftrightarrow> (\<exists>p. (g, p) \<in> set (group_entries ps))"
    by force
  then show ?thesis by (simp add: group_entries_iff)
qed

lemma populated_applyPermissionMap: "populated res \<Longrightarrow> populated (applyPermissionMap pm res)"
  unfolding applyPermissionMap_def
  by (induction pm arbitrary: res) (auto simp: populated_fold_applyCredential)

lemma hasGroup_applyPermissionMap:
  "hasGroup (applyPermissionMap pm res) i g \<longleftrightarrow> mentions pm i g \<or> hasGroup res i g"
  unfolding applyPermissionMap_def
proof (induction pm arbitrary: res)
  case Nil
  then show ?case by (simp add: mentions_def)
next
  case (Cons e pm)
  obtain i' ps where e: "e = (i', ps)" by (cases e)
  have st: "mentions (e # pm) i g \<longleftrightarrow> (i' = i \<and> ps g \<noteq> None) \<or> mentions pm i g"
    by (auto simp: mentions_def e)
  show ?case
    unfolding fold_Cons comp_def Cons.IH st
    by (auto simp: e hasGroup_fold_applyCredential fst_group_entries)
qed

lemma populated_combine: "populated (combine rs)"
proof -
  have "populated res \<Longrightarrow> populated (fold applyPermissionMap rs res)" for res
    by (induction rs arbitrary: res) (auto simp: populated_applyPermissionMap)
  from this [of "[]"] show ?thesis unfolding combine_def by (simp add: populated_def im_get_def)
qed

lemma hasGroup_combine: "hasGroup (combine rs) i g \<longleftrightarrow> (\<exists>pm\<in>set rs. mentions pm i g)"
proof -
  have "hasGroup (fold applyPermissionMap rs res) i g \<longleftrightarrow>
          (\<exists>pm\<in>set rs. mentions pm i g) \<or> hasGroup res i g" for res
    by (induction rs arbitrary: res) (auto simp: hasGroup_applyPermissionMap)
  then show ?thesis unfolding combine_def by (simp add: hasGroup_def im_get_def)
qed

lemma populated_eqI:
  assumes "populated a" "populated b"
    and "\<And>i g. hasGroup a i g \<longleftrightarrow> hasGroup b i g"
    and "\<And>i g m. permissionAt a i g m = permissionAt b i g m"
  shows "im_get a = im_get b"
proof (rule ext)
  fix i
  show "im_get a i = im_get b i"
  proof (cases "im_get a i"; cases "im_get b i")
    fix ps assume A: "im_get a i = Some ps" and B: "im_get b i = None"
    from A assms(1) obtain g where "ps g \<noteq> None" unfolding populated_def by blast
    with A B assms(3)[of i g] show ?thesis by (simp add: hasGroup_def)
  next
    fix ps assume A: "im_get a i = None" and B: "im_get b i = Some ps"
    from B assms(2) obtain g where "ps g \<noteq> None" unfolding populated_def by blast
    with A B assms(3)[of i g] show ?thesis by (simp add: hasGroup_def)
  next
    fix ps qs assume A: "im_get a i = Some ps" and B: "im_get b i = Some qs"
    have "ps g = qs g" for g
    proof (cases "ps g"; cases "qs g")
      fix p q assume P: "ps g = Some p" and Q: "qs g = Some q"
      have "p m = q m" for m using assms(4)[of i g m] A B P Q by (simp add: permissionAt_def)
      then show ?thesis using P Q by auto
    qed (use assms(3)[of i g] A B in \<open>auto simp: hasGroup_def\<close>)
    then show ?thesis using A B by auto
  qed simp
qed

lemma combine_order:
  assumes "set rs' = set rs"
  shows "im_get (combine rs') = im_get (combine rs)"
  by (rule populated_eqI) (simp_all add: populated_combine hasGroup_combine permissionAt_combine assms)

text \<open>
  Claim C2. \<^verbatim>\<open>combine\<close> yields, for every identifier, credential group and mode,
  \<^verbatim>\<open>false\<close> when some input states \<^verbatim>\<open>false\<close>, else \<^verbatim>\<open>true\<close> when some input states
  \<^verbatim>\<open>true\<close>, else \<^verbatim>\<open>undefined\<close>. The step of \<^verbatim>\<open>applyPermissions\<close> on one key is
  \<open>mergeValue\<close>; it is commutative and associative, \<^verbatim>\<open>undefined\<close> is its identity and
  \<^verbatim>\<open>false\<close> absorbs. The merged map is the same for every order of the child results.
\<close>

theorem UnionPermissionReader_combine_lattice:
  "permissionAt (combine results) identifier g mode =
     (if (\<exists>pm\<in>set results. states pm identifier g mode False) then Some False
      else if (\<exists>pm\<in>set results. states pm identifier g mode True) then Some True
      else None)
   \<and> applyPermissions (Some p) (Some r) mode = mergeValue (r mode) (p mode)
   \<and> mergeValue a b = mergeValue b a
   \<and> mergeValue (mergeValue a b) c = mergeValue a (mergeValue b c)
   \<and> mergeValue None a = a \<and> mergeValue a None = a
   \<and> mergeValue (Some False) a = Some False \<and> mergeValue a (Some False) = Some False
   \<and> (mset results' = mset results \<longrightarrow> im_get (combine results') = im_get (combine results))"
proof -
  have comm: "mergeValue a b = mergeValue b a"
    by (cases a; cases b) (auto simp: mergeValue_def)
  have assoc: "mergeValue (mergeValue a b) c = mergeValue a (mergeValue b c)"
    by (cases a; cases b; cases c) (auto simp: mergeValue_def)
  have unit: "mergeValue None a = a \<and> mergeValue a None = a"
    by (cases a) (auto simp: mergeValue_def)
  have absorb: "mergeValue (Some False) a = Some False \<and> mergeValue a (Some False) = Some False"
    by (cases a) (auto simp: mergeValue_def)
  have order: "mset results' = mset results \<longrightarrow> im_get (combine results') = im_get (combine results)"
    using combine_order [of results' results] mset_eq_setD [of results' results] by blast
  have step: "applyPermissions (Some p) (Some r) mode = mergeValue (r mode) (p mode)"
    by (simp add: applyPermissions_def)
  show ?thesis
    using permissionAt_combine [of results "identifier" "g" "mode"] comm assoc unit absorb order step
    by blast
qed

theorem UnionPermissionReader_combine_lattice_witness:
  "permissionAt
     (combine [[(''http://test.com/foo'', [public \<mapsto> [Read \<mapsto> True]])],
               [(''http://test.com/foo'', [public \<mapsto> [Read \<mapsto> False]])]])
     ''http://test.com/foo'' public Read = Some False
   \<and> im_get (combine [[(''http://test.com/foo'', [public \<mapsto> [Read \<mapsto> False]])],
                       [(''http://test.com/foo'', [public \<mapsto> [Read \<mapsto> True]])]])
     = im_get (combine [[(''http://test.com/foo'', [public \<mapsto> [Read \<mapsto> True]])],
                        [(''http://test.com/foo'', [public \<mapsto> [Read \<mapsto> False]])]])"
proof -
  let ?A = "[(''http://test.com/foo'', [public \<mapsto> [Read \<mapsto> True]])]"
  let ?B = "[(''http://test.com/foo'', [public \<mapsto> [Read \<mapsto> False]])]"
  have m: "mset [?B, ?A] = mset [?A, ?B]" by simp
  have s: "states ?B ''http://test.com/foo'' public Read False" by (simp add: states_def)
  show ?thesis
    using UnionPermissionReader_combine_lattice
            [of "[?A, ?B]" "''http://test.com/foo''" public Read _ _ _ _ _ "[?B, ?A]"] m s
    by simp
qed


section \<open>Properties of the ACL discovery of WebAclReader\<close>

lemma aclWalk_Cons:
  "aclWalk this i (x # w) \<longleftrightarrow>
     x = i \<and> (w = [] \<or> (\<not> isRootContainer this i
      \<and> (\<exists>e. getRepresentation this (getAuxiliaryIdentifier this i) = Inl e \<and> isNotFoundHttpError e)
      \<and> aclWalk this (getParentContainer this i) w))"
  by (cases w) auto

lemma getAclRecursive_walk:
  assumes "getAclRecursive this i rq = Some y"
  shows "\<exists>w. aclWalk this i w \<and> fst y = rq @ map (getAuxiliaryIdentifier this) w
             \<and> aclOutcome this (last w) (snd y)"
  using assms
proof (induction rule: getAclRecursive.raw_induct [rotated 1, consumes 1, case_names step])
  case (step f this' i rq y)
  note 1 = step
  let ?acl = "getAuxiliaryIdentifier this' i"
  show ?case
  proof (cases "getRepresentation this' ?acl")
    case (Inr store)
    with 1(2) have "y = (rq @ [?acl], Inr (i, store))" by (simp add: Let_def)
    then have "aclWalk this' i [i] \<and> fst y = rq @ map (getAuxiliaryIdentifier this') [i]
             \<and> aclOutcome this' (last [i]) (snd y)"
      using Inr by (simp add: aclOutcome_def)
    then show ?thesis by blast
  next
    case (Inl e)
    show ?thesis
    proof (cases "isNotFoundHttpError e \<and> \<not> isRootContainer this' i")
      case True
      with 1(2) Inl have "f this' (getParentContainer this' i) (rq @ [?acl]) = Some y"
        by (simp add: Let_def)
      from 1(1)[OF this] obtain w where
        w: "aclWalk this' (getParentContainer this' i) w"
           "fst y = (rq @ [?acl]) @ map (getAuxiliaryIdentifier this') w"
           "aclOutcome this' (last w) (snd y)" by blast
      from w(1) have ne: "w \<noteq> []" by (cases w) auto
      have "aclWalk this' i (i # w)" using w(1) True Inl by (auto simp: aclWalk_Cons)
      moreover have "fst y = rq @ map (getAuxiliaryIdentifier this') (i # w)" using w(2) by simp
      moreover have "aclOutcome this' (last (i # w)) (snd y)" using w(3) ne by simp
      ultimately show ?thesis by blast
    next
      case False
      with 1(2) Inl have "y = (rq @ [?acl],
          if isNotFoundHttpError e then Inl (ForbiddenHttpError ''No ACL document found for root container'')
          else Inl (InternalServerError (''Error reading ACL for '' @ i @ '': '' @ createErrorMessage e) e))"
        by (auto simp add: Let_def)
      then have "aclWalk this' i [i] \<and> fst y = rq @ map (getAuxiliaryIdentifier this') [i]
             \<and> aclOutcome this' (last [i]) (snd y)"
        using Inl False by (auto simp add: aclOutcome_def)
      then show ?thesis by blast
    qed
  qed
qed

lemma getAclRecursive_returns:
  "reachesRoot this n i \<Longrightarrow> \<exists>y. getAclRecursive this i rq = Some y"
proof (induction n arbitrary: i rq)
  case 0
  then show ?case
    by (subst getAclRecursive.simps) (auto simp: Let_def split: sum.splits)
next
  case (Suc n)
  show ?case
  proof (cases "isRootContainer this i")
    case True
    then show ?thesis
      by (subst getAclRecursive.simps) (auto simp: Let_def split: sum.splits)
  next
    case False
    with Suc.prems have "reachesRoot this n (getParentContainer this i)" by simp
    from Suc.IH[OF this] show ?thesis
      by (subst getAclRecursive.simps) (auto simp: Let_def split: sum.splits)
  qed
qed

lemma aclWalk_lengths:
  "aclWalk this i w \<Longrightarrow> reachesRoot this n i \<Longrightarrow> (\<forall>p\<in>set w. length p \<le> length i) \<and> distinct w"
proof (induction w arbitrary: i n)
  case Nil
  then show ?case by simp
next
  case (Cons x w)
  show ?case
  proof (cases w)
    case Nil
    with Cons.prems show ?thesis by simp
  next
    case (Cons y ys)
    with Cons.prems have nr: "\<not> isRootContainer this i" and x: "x = i"
      and wk: "aclWalk this (getParentContainer this i) w" by auto
    from nr Cons.prems(2) obtain n' where
      lt: "length (getParentContainer this i) < length i" and
      rr: "reachesRoot this n' (getParentContainer this i)" by (cases n) auto
    from Cons.IH[OF wk rr] have "(\<forall>p\<in>set w. length p \<le> length (getParentContainer this i)) \<and> distinct w" .
    with lt x show ?thesis by fastforce
  qed
qed

lemma aclOutcome_error: "aclOutcome this a (Inl e) \<Longrightarrow> discoveryError this e"
  by (auto simp: aclOutcome_def discoveryError_def split: sum.splits if_splits)

lemma getAclRecursive_error:
  "getAclRecursive this i rq = Some (rq', Inl e) \<Longrightarrow> discoveryError this e"
  using getAclRecursive_walk [of this i rq "(rq', Inl e)"] aclOutcome_error by auto

lemma getAclRecursive_found_length:
  assumes "getAclRecursive this i rq = Some (rq', Inr aclMatch)" and "reachesRoot this n i"
  shows "length (fst aclMatch) \<le> length i"
proof -
  from getAclRecursive_walk [OF assms(1)] obtain w where
    w: "aclWalk this i w" "aclOutcome this (last w) (Inr aclMatch)" by auto
  from w(1) have ne: "w \<noteq> []" by (cases w) auto
  from w(2) have "fst aclMatch = last w"
    by (auto simp: aclOutcome_def split: sum.splits if_splits)
  with aclWalk_lengths [OF w(1) assms(2)] ne show ?thesis by simp
qed

lemma longestTarget_aux:
  "length a \<le> length (foldl (\<lambda>long identifier. if length identifier > length long then identifier else long) a xs)
   \<and> (\<forall>x\<in>set xs. length x \<le> length (foldl (\<lambda>long identifier. if length identifier > length long then identifier else long) a xs))
   \<and> (foldl (\<lambda>long identifier. if length identifier > length long then identifier else long) a xs \<in> set xs
       \<or> foldl (\<lambda>long identifier. if length identifier > length long then identifier else long) a xs = a)"
proof (induction xs arbitrary: a)
  case Nil
  then show ?case by simp
next
  case (Cons x xs)
  from Cons.IH [of "if length x > length a then x else a"] show ?case
    by (auto split: if_splits)
qed

lemma longestTarget_longest: "t \<in> set targets \<Longrightarrow> length t \<le> length (longestTarget targets)"
  using longestTarget_aux [of "[]" targets] by (simp add: longestTarget_def)

lemma longestTarget_in: "targets \<noteq> [] \<Longrightarrow> longestTarget targets \<in> set targets"
proof -
  assume ne: "targets \<noteq> []"
  from longestTarget_aux [of "[]" targets]
  consider "longestTarget targets \<in> set targets" | "longestTarget targets = []"
    by (auto simp: longestTarget_def)
  then show ?thesis
  proof cases
    case 2
    from ne obtain t where t: "t \<in> set targets" by (cases targets) auto
    with longestTarget_longest [OF t] 2 have "t = []" by simp
    with t 2 show ?thesis by simp
  qed
qed

lemma usesAcl_longest:
  assumes "getAclRecursive this longest rq = Some (rq', Inr aclMatch)"
    and "reachesRoot this n longest"
  shows "usesAcl longest aclMatch longest"
  using getAclRecursive_found_length [OF assms] by (simp add: usesAcl_def)

lemma getAclMatches_loop_returns:
  "\<forall>t\<in>set targets. reachesRoot this (length t) t \<Longrightarrow>
   \<exists>y. getAclMatches_loop this targets storeMap rq = Some y"
proof (induction "length targets" arbitrary: targets storeMap rq rule: less_induct)
  case less
  show ?case
  proof (cases "targets = []")
    case True
    then show ?thesis by (subst getAclMatches_loop.simps) simp
  next
    case False
    let ?l = "longestTarget targets"
    have lin: "?l \<in> set targets" using False by (rule longestTarget_in)
    then have rr: "reachesRoot this (length ?l) ?l" using less.prems by blast
    from getAclRecursive_returns [OF rr, of rq] obtain rq' r where
      g: "getAclRecursive this ?l rq = Some (rq', r)" by force
    show ?thesis
    proof (cases r)
      case (Inl e)
      with g False show ?thesis by (subst getAclMatches_loop.simps) (simp add: Let_def)
    next
      case (Inr aclMatch)
      let ?rest = "filter (\<lambda>target. \<not> usesAcl ?l aclMatch target) targets"
      have "usesAcl ?l aclMatch ?l" using usesAcl_longest [OF _ rr] g Inr by blast
      with lin have "length ?rest < length targets"
        by (metis (mono_tags, lifting) length_filter_less)
      moreover have "\<forall>t\<in>set ?rest. reachesRoot this (length t) t" using less.prems by simp
      ultimately obtain y where
        "getAclMatches_loop this ?rest (storeMap @ [(aclMatch, filter (usesAcl ?l aclMatch) targets)]) rq' = Some y"
        using less.hyps by blast
      with g Inr False show ?thesis by (subst getAclMatches_loop.simps) (simp add: Let_def)
    qed
  qed
qed

lemma getAclMatches_loop_result:
  assumes "getAclMatches_loop this targets storeMap rq = Some y"
  shows "case snd y of
           Inl e \<Rightarrow> discoveryError this e
         | Inr sm \<Rightarrow> claimedTargets sm = claimedTargets storeMap \<union> set targets"
  using assms
proof (induction rule: getAclMatches_loop.raw_induct [rotated 1, consumes 1, case_names step])
  case (step f this' targets storeMap rq y)
  show ?case
  proof (cases "targets = []")
    case True
    with step(2) show ?thesis by auto
  next
    case False
    let ?l = "longestTarget targets"
    from step(2) False obtain rq' r where g: "getAclRecursive this' ?l rq = Some (rq', r)"
      by (auto simp: Let_def split: option.splits)
    show ?thesis
    proof (cases r)
      case (Inl e)
      with g step(2) False have "y = (rq', Inl e)" by (simp add: Let_def)
      then show ?thesis using getAclRecursive_error g Inl by auto
    next
      case (Inr aclMatch)
      with g step(2) False have
        "f this' (filter (\<lambda>target. \<not> usesAcl ?l aclMatch target) targets)
            (storeMap @ [(aclMatch, filter (usesAcl ?l aclMatch) targets)]) rq' = Some y"
        by (simp add: Let_def)
      from step(1) [OF this] show ?thesis
        by (auto simp: claimedTargets_def split: sum.splits)
    qed
  qed
qed

lemma set_im_keys_im_set: "set (im_keys (im_set k v m)) = insert k (set (im_keys m))"
  using dom_update [of k v m] by (simp add: im_keys_def im_set_def)

lemma claimedTargets_filterAclMap: "claimedTargets (filterAclMap aclMap) = claimedTargets aclMap"
proof -
  have "set (concat (map snd (filterAclMatch e))) = set (snd e)" for e :: "AclMatch \<times> string list"
  proof -
    let ?d = "filter (\<lambda>target. target = fst (fst e)) (snd e)"
    let ?i = "filter (\<lambda>target. target \<noteq> fst (fst e)) (snd e)"
    have "concat (map snd (filterAclMatch e)) = ?d @ ?i"
      by (cases "?d = []"; cases "?i = []") (simp_all add: filterAclMatch_def Let_def)
    then show ?thesis by auto
  qed
  then show ?thesis
    by (induction aclMap) (auto simp: claimedTargets_def filterAclMap_def)
qed

lemma fold_im_set_keys:
  "set (im_keys (fold (\<lambda>identifier. im_set identifier v) ids result)) = set ids \<union> set (im_keys result)"
  by (induction ids arbitrary: result) (auto simp: set_im_keys_im_set)

lemma fold_im_set_bothGroups:
  "bothGroups result \<Longrightarrow> dom v = {public, agent} \<Longrightarrow>
   bothGroups (fold (\<lambda>identifier. im_set identifier v) ids result)"
proof (induction ids arbitrary: result)
  case Nil
  then show ?case by simp
next
  case (Cons i ids)
  have "bothGroups (im_set i v result)"
    using Cons.prems by (auto simp: bothGroups_def im_get_im_set split: if_splits)
  from Cons.IH [OF this Cons.prems(2)] show ?case by simp
qed

lemma findPermissionsEntry_result:
  assumes "findPermissionsEntry this credentials entry result = Inr pm" and "bothGroups result"
  shows "set (im_keys pm) = set (snd entry) \<union> set (im_keys result) \<and> bothGroups pm"
proof -
  from assms(1) obtain pp ap where
    pm: "pm = fold (\<lambda>identifier. im_set identifier [public \<mapsto> pp, agent \<mapsto> ap]) (snd entry) result"
    by (auto simp: findPermissionsEntry_def split: sum.splits)
  have "dom [public \<mapsto> pp, agent \<mapsto> ap] = {public, agent}" by auto
  from fold_im_set_bothGroups [OF assms(2) this] show ?thesis
    unfolding pm by (simp add: fold_im_set_keys)
qed

lemma foldE_findPermissionsEntry:
  "foldE (findPermissionsEntry this credentials) aclMap result = Inr pm \<Longrightarrow> bothGroups result \<Longrightarrow>
   set (im_keys pm) = claimedTargets aclMap \<union> set (im_keys result) \<and> bothGroups pm"
proof (induction aclMap arbitrary: result)
  case Nil
  then show ?case by (simp add: claimedTargets_def)
next
  case (Cons e aclMap)
  from Cons.prems(1) obtain r where
    r: "findPermissionsEntry this credentials e result = Inr r"
    and rest: "foldE (findPermissionsEntry this credentials) aclMap r = Inr pm"
    by (auto split: sum.splits)
  from findPermissionsEntry_result [OF r Cons.prems(2)] Cons.IH [OF rest]
  show ?case by (auto simp: claimedTargets_def)
qed

lemma findPermissions_result:
  "findPermissions this aclMap credentials = Inr pm \<Longrightarrow>
   set (im_keys pm) = claimedTargets aclMap \<and> bothGroups pm"
  using foldE_findPermissionsEntry [of this credentials aclMap "[]" pm]
  by (simp add: findPermissions_def bothGroups_def im_get_def im_keys_def)

lemma getAclMatches_result:
  "getAclMatches this targets = Some (rq, Inr sm) \<Longrightarrow> claimedTargets sm = set targets"
  using getAclMatches_loop_result [of this targets "[]" "[]" "(rq, Inr sm)"]
  by (simp add: getAclMatches_def claimedTargets_def)

lemma WebAclReader_handle_result:
  assumes "WebAclReader_handle this credentials accessMap = Some (rq, Inr pm)"
  shows "set (im_keys pm) = set (im_keys accessMap) \<and> bothGroups pm"
proof -
  from assms obtain sm where
    g: "getAclMatches this (im_keys accessMap) = Some (rq, Inr sm)"
    and f: "findPermissions this (filterAclMap sm) credentials = Inr pm"
    by (auto simp: WebAclReader_handle_def split: option.splits sum.splits)
  from findPermissions_result [OF f] getAclMatches_result [OF g] show ?thesis
    by (simp add: claimedTargets_filterAclMap)
qed

lemma WebAclReader_handle_returns:
  assumes "\<forall>t\<in>set (im_keys accessMap). reachesRoot this (length t) t"
  shows "\<exists>y. WebAclReader_handle this credentials accessMap = Some y"
proof -
  from getAclMatches_loop_returns [OF assms, of "[]" "[]"] obtain rq r where
    "getAclMatches this (im_keys accessMap) = Some (rq, r)"
    by (auto simp: getAclMatches_def)
  then show ?thesis by (cases r) (auto simp: WebAclReader_handle_def)
qed

section \<open>Properties of the permission evaluation of WebAclReader\<close>

lemma foldE_append:
  "foldE f (xs @ ys) s = (case foldE f xs s of Inl e \<Rightarrow> Inl e | Inr s' \<Rightarrow> foldE f ys s')"
  by (induction xs arbitrary: s) (auto split: sum.splits)

lemma applyAclMode_cases:
  "applyAclMode v p =
     (if inheritedOnly v then Inl (TypeError ''modesMap[aclMode] is not iterable'')
      else Inr (\<lambda>m. if m \<in> modesOf v then Some True else p m))"
proof (cases "map_of modesMap v")
  case None
  then show ?thesis by (auto simp: applyAclMode_def inheritedOnly_def modesOf_def)
next
  case (Some ms)
  have "fold (\<lambda>mode p. p(mode \<mapsto> True)) ms p = (\<lambda>m. if m \<in> set ms then Some True else p m)" for p :: Permission
    by (induction ms arbitrary: p) (auto simp: fun_eq_iff)
  with Some show ?thesis by (simp add: applyAclMode_def inheritedOnly_def modesOf_def)
qed

lemma foldE_applyAclMode:
  "foldE applyAclMode vs p =
     (if \<exists>v\<in>set vs. inheritedOnly v then Inl (TypeError ''modesMap[aclMode] is not iterable'')
      else Inr (\<lambda>m. if \<exists>v\<in>set vs. m \<in> modesOf v then Some True else p m))"
proof (induction vs arbitrary: p)
  case Nil
  then show ?case by simp
next
  case (Cons v vs)
  show ?case
  proof (cases "inheritedOnly v")
    case True
    then show ?thesis by (simp add: applyAclMode_cases [of v p])
  next
    case False
    then have "foldE applyAclMode (v # vs) p =
        foldE applyAclMode vs (\<lambda>m. if m \<in> modesOf v then Some True else p m)"
      by (simp add: applyAclMode_cases [of v p])
    then show ?thesis using False
      unfolding Cons.IH by (auto simp: fun_eq_iff)
  qed
qed

lemma foldE_applyAclRule:
  "foldE (applyAclRule checker acl c) rules p =
     foldE applyAclMode
       (concat (map (\<lambda>rule. if checker acl rule c
                          then map termValue (getObjects acl rule (NamedNode ACL_mode)) else []) rules)) p"
  by (induction rules arbitrary: p) (auto simp: applyAclRule_def foldE_append split: sum.splits)

lemma determinePermissions_Some:
  "determinePermissions checker acl (Some c) =
     (if \<exists>v\<in>set (acceptedModes checker acl c). inheritedOnly v
      then Inl (TypeError ''modesMap[aclMode] is not iterable'')
      else Inr (\<lambda>m. if \<exists>v\<in>set (acceptedModes checker acl c). m \<in> modesOf v then Some True else None))"
  by (simp add: determinePermissions_def foldE_applyAclRule foldE_applyAclMode acceptedModes_def)

lemma modesOf_iff:
  "Read \<in> modesOf v \<longleftrightarrow> v = ACL_Read"
  "Append \<in> modesOf v \<longleftrightarrow> v = ACL_Write \<or> v = ACL_Append"
  "Write \<in> modesOf v \<longleftrightarrow> v = ACL_Write"
  "Control \<in> modesOf v \<longleftrightarrow> v = ACL_Control"
  "Create \<notin> modesOf v" "Delete \<notin> modesOf v"
  by (auto simp: modesOf_def modesMap_def ACL_Read_def ACL_Write_def ACL_Append_def ACL_Control_def
        split: option.splits if_splits)

lemma determinePermissions_error:
  "determinePermissions checker acl credential = Inl e \<Longrightarrow>
   e = TypeError ''modesMap[aclMode] is not iterable''"
proof (cases credential)
  case None
  then show ?thesis if "determinePermissions checker acl credential = Inl e"
    using that by (simp add: determinePermissions_def)
next
  case (Some c)
  then show ?thesis if "determinePermissions checker acl credential = Inl e"
    using that unfolding Some determinePermissions_Some by (simp split: if_splits)
qed

lemma findPermissions_error:
  "findPermissions this aclMap credentials = Inl e \<Longrightarrow>
   e = TypeError ''modesMap[aclMode] is not iterable''"
proof -
  have "foldE (findPermissionsEntry this credentials) aclMap result = Inl e \<Longrightarrow>
        e = TypeError ''modesMap[aclMode] is not iterable''" for result
  proof (induction aclMap arbitrary: result)
    case Nil
    then show ?case by simp
  next
    case (Cons x aclMap)
    show ?case
    proof (cases "findPermissionsEntry this credentials x result")
      case (Inl e')
      with Cons.prems have "e' = e" by simp
      with Inl show ?thesis
        by (auto simp: findPermissionsEntry_def split: sum.splits dest: determinePermissions_error)
    next
      case (Inr r)
      with Cons.prems Cons.IH [of r] show ?thesis by simp
    qed
  qed
  from this [of "[]"] show ?thesis if "findPermissions this aclMap credentials = Inl e"
    using that by (simp add: findPermissions_def)
qed

lemma WebAclReader_handle_error:
  assumes "WebAclReader_handle this credentials accessMap = Some (rq, Inl e)"
  shows "discoveryError this e \<or> e = TypeError ''modesMap[aclMode] is not iterable''"
proof (cases "getAclMatches this (im_keys accessMap)")
  case None
  with assms show ?thesis by (simp add: WebAclReader_handle_def)
next
  case (Some y)
  obtain rq' r where y: "y = (rq', r)" by (cases y)
  show ?thesis
  proof (cases r)
    case (Inl e')
    with Some y assms have "e' = e" by (simp add: WebAclReader_handle_def)
    with getAclMatches_loop_result [of this "im_keys accessMap" "[]" "[]" y] Some y Inl
    show ?thesis by (simp add: getAclMatches_def)
  next
    case (Inr sm)
    with Some y assms have "findPermissions this (filterAclMap sm) credentials = Inl e"
      by (simp add: WebAclReader_handle_def)
    then show ?thesis using findPermissions_error by blast
  qed
qed

lemma findPermissions_throws:
  "findPermissions this aclMap credentials = Inl e \<Longrightarrow>
   \<exists>store credential. determinePermissions (accessChecker this) store credential = Inl e"
proof -
  have "foldE (findPermissionsEntry this credentials) aclMap result = Inl e \<Longrightarrow>
        \<exists>store credential. determinePermissions (accessChecker this) store credential = Inl e"
    for result
  proof (induction aclMap arbitrary: result)
    case Nil
    then show ?case by simp
  next
    case (Cons x aclMap)
    show ?case
    proof (cases "findPermissionsEntry this credentials x result")
      case (Inl e')
      with Cons.prems have "e' = e" by simp
      with Inl show ?thesis
        by (auto simp: findPermissionsEntry_def split: sum.splits)
    next
      case (Inr r)
      with Cons.prems Cons.IH [of r] show ?thesis by simp
    qed
  qed
  from this [of "[]"] show ?thesis if "findPermissions this aclMap credentials = Inl e"
    using that by (simp add: findPermissions_def)
qed

lemma WebAclReader_handle_throws:
  assumes "WebAclReader_handle this credentials accessMap = Some (rq, Inl e)"
  shows "discoveryError this e
         \<or> (\<exists>store credential. determinePermissions (accessChecker this) store credential = Inl e)"
proof (cases "getAclMatches this (im_keys accessMap)")
  case None
  with assms show ?thesis by (simp add: WebAclReader_handle_def)
next
  case (Some y)
  obtain rq' r where y: "y = (rq', r)" by (cases y)
  show ?thesis
  proof (cases r)
    case (Inl e')
    with Some y assms have "e' = e" by (simp add: WebAclReader_handle_def)
    with getAclMatches_loop_result [of this "im_keys accessMap" "[]" "[]" y] Some y Inl
    show ?thesis by (simp add: getAclMatches_def)
  next
    case (Inr sm)
    with Some y assms have "findPermissions this (filterAclMap sm) credentials = Inl e"
      by (simp add: WebAclReader_handle_def)
    then show ?thesis using findPermissions_throws by blast
  qed
qed

lemma getAclRecursive_requests:
  assumes "getAclRecursive this i rq = Some y" and "reachesRoot this n i"
    and "inj (getAuxiliaryIdentifier this)"
  shows "\<exists>fetched. fst y = rq @ fetched \<and> distinct fetched"
proof -
  from getAclRecursive_walk [OF assms(1)] obtain w where
    w: "aclWalk this i w" "fst y = rq @ map (getAuxiliaryIdentifier this) w" by blast
  from aclWalk_lengths [OF w(1) assms(2)] have "distinct w" by simp
  with assms(3) have "distinct (map (getAuxiliaryIdentifier this) w)"
    by (simp add: distinct_map inj_on_subset [of _ UNIV])
  with w(2) show ?thesis by blast
qed

lemma getAclMatches_loop_requests:
  "getAclMatches_loop this targets storeMap rq = Some y \<Longrightarrow>
   (\<forall>t\<in>set targets. reachesRoot this (length t) t) \<Longrightarrow>
   inj (getAuxiliaryIdentifier this) \<Longrightarrow>
   \<exists>walks. fst y = rq @ concat walks \<and> (\<forall>w\<in>set walks. distinct w) \<and> length walks \<le> length targets"
proof (induction rule: getAclMatches_loop.raw_induct [rotated 1, consumes 1, case_names step])
  case (step f this' targets storeMap rq y)
  show ?case
  proof (cases "targets = []")
    case True
    with step(2) have "fst y = rq @ concat []" by auto
    then show ?thesis by (metis empty_iff le0 list.size(3) empty_set)
  next
    case False
    let ?l = "longestTarget targets"
    have lin: "?l \<in> set targets" using False by (rule longestTarget_in)
    then have rr: "reachesRoot this' (length ?l) ?l" using step(3) by blast
    from step(2) False obtain rq' r where g: "getAclRecursive this' ?l rq = Some (rq', r)"
      by (auto simp: Let_def split: option.splits)
    from getAclRecursive_requests [OF g rr step(4)] obtain fetched where
      fe: "rq' = rq @ fetched" "distinct fetched" by auto
    show ?thesis
    proof (cases r)
      case (Inl e)
      with g step(2) False have "y = (rq', Inl e)" by (simp add: Let_def)
      with fe have "fst y = rq @ concat [fetched] \<and> (\<forall>w\<in>set [fetched]. distinct w)
          \<and> length [fetched] \<le> length targets"
        using False by (cases targets) auto
      then show ?thesis by blast
    next
      case (Inr aclMatch)
      let ?rest = "filter (\<lambda>target. \<not> usesAcl ?l aclMatch target) targets"
      from Inr g step(2) False have
        "f this' ?rest (storeMap @ [(aclMatch, filter (usesAcl ?l aclMatch) targets)]) rq' = Some y"
        by (simp add: Let_def)
      moreover have "\<forall>t\<in>set ?rest. reachesRoot this' (length t) t" using step(3) by simp
      ultimately obtain walks where
        ws: "fst y = rq' @ concat walks" "\<forall>w\<in>set walks. distinct w" "length walks \<le> length ?rest"
        using step(1) step(4) by blast
      have "usesAcl ?l aclMatch ?l" using usesAcl_longest [OF _ rr] g Inr by blast
      with lin have "length ?rest < length targets"
        by (metis (mono_tags, lifting) length_filter_less)
      with ws fe have "fst y = rq @ concat (fetched # walks) \<and> (\<forall>w\<in>set (fetched # walks). distinct w)
          \<and> length (fetched # walks) \<le> length targets"
        by auto
      then show ?thesis by blast
    qed
  qed
qed

lemma getAclMatches_loop_claims:
  assumes "targets \<noteq> []"
    and "getAclRecursive this (longestTarget targets) requests0 = Some (requests1, Inr aclMatch)"
  shows "getAclMatches_loop this targets storeMap requests0 =
      getAclMatches_loop this
        (filter (\<lambda>target. \<not> (sublist target (longestTarget targets)
                            \<and> length (fst aclMatch) \<le> length target)) targets)
        (storeMap @ [(aclMatch,
           filter (\<lambda>target. sublist target (longestTarget targets)
                            \<and> length (fst aclMatch) \<le> length target) targets)])
        requests1"
proof -
  have u: "usesAcl (longestTarget targets) aclMatch
             = (\<lambda>target. sublist target (longestTarget targets)
                            \<and> length (fst aclMatch) \<le> length target)"
    by (rule ext) (simp add: usesAcl_def)
  show ?thesis
    by (subst getAclMatches_loop.simps) (simp add: assms Let_def u)
qed

lemma getAclMatches_loop_throws:
  assumes "targets \<noteq> []"
    and "getAclRecursive this (longestTarget targets) requests0 = Some (requests1, Inl e)"
  shows "getAclMatches_loop this targets storeMap requests0 = Some (requests1, Inl e)"
  by (subst getAclMatches_loop.simps) (simp add: assms Let_def)

section \<open>Claims about WebAclReader\<close>

text \<open>
  Claim C1. The claim says that a mode value that is not one of the four WebACL modes is
  ignored. \<^verbatim>\<open>determinePermissions\<close> tests \<^verbatim>\<open>aclMode in modesMap\<close>, which also holds for
  the names inherited from \<^verbatim>\<open>Object.prototype\<close>: for a rule that the access checker
  accepts and that has the mode object \<^verbatim>\<open>"toString"\<close>, the loop over
  \<^verbatim>\<open>modesMap[aclMode]\<close> throws a \<^verbatim>\<open>TypeError\<close> and the reader returns no Permission.
\<close>

theorem determinePermissions_inherited_mode_throws:
  "determinePermissions (\<lambda>_ _ _. True)
     [(NamedNode ''auth'', NamedNode RDF_type, NamedNode ACL_Authorization),
      (NamedNode ''auth'', NamedNode ACL_mode, Literal ''toString'')]
     (Some \<lparr>webId = None\<rparr>)
   = Inl (TypeError ''modesMap[aclMode] is not iterable'')"
proof -
  have "(case determinePermissions (\<lambda>_ _ _. True)
           [(NamedNode ''auth'', NamedNode RDF_type, NamedNode ACL_Authorization),
            (NamedNode ''auth'', NamedNode ACL_mode, Literal ''toString'')]
           (Some \<lparr>webId = None\<rparr>) of
          Inl e \<Rightarrow> e = TypeError ''modesMap[aclMode] is not iterable''
        | Inr _ \<Rightarrow> False)"
    by code_simp
  then show ?thesis by (simp split: sum.splits)
qed

text \<open>
  On every other store \<^verbatim>\<open>determinePermissions\<close> gives the modes of the rules: without a
  credential the Permission is empty; with one, and when no accepted rule has a mode
  object named like an inherited property, \<^verbatim>\<open>acl:Read\<close> gives \<^verbatim>\<open>read\<close>, \<^verbatim>\<open>acl:Write\<close>
  gives \<^verbatim>\<open>append\<close> and \<^verbatim>\<open>write\<close>, \<^verbatim>\<open>acl:Append\<close> gives \<^verbatim>\<open>append\<close>, \<^verbatim>\<open>acl:Control\<close>
  gives \<^verbatim>\<open>control\<close>, every other value is ignored, and no mode is ever \<^verbatim>\<open>false\<close>.
\<close>

theorem determinePermissions_modes:
  "determinePermissions checker acl None = Inr Map.empty
   \<and> (\<not> (\<exists>v\<in>set (acceptedModes checker acl c). inheritedOnly v) \<longrightarrow>
        (\<exists>p. determinePermissions checker acl (Some c) = Inr p
           \<and> (p Read = Some True \<longleftrightarrow> ACL_Read \<in> set (acceptedModes checker acl c))
           \<and> (p Append = Some True \<longleftrightarrow>
                ACL_Write \<in> set (acceptedModes checker acl c)
                \<or> ACL_Append \<in> set (acceptedModes checker acl c))
           \<and> (p Write = Some True \<longleftrightarrow> ACL_Write \<in> set (acceptedModes checker acl c))
           \<and> (p Control = Some True \<longleftrightarrow> ACL_Control \<in> set (acceptedModes checker acl c))
           \<and> p Create = None \<and> p Delete = None))
   \<and> (determinePermissions checker acl credential = Inr q \<longrightarrow> (\<forall>mode. q mode \<noteq> Some False))"
proof -
  have none: "determinePermissions checker acl None = Inr Map.empty"
    by (simp add: determinePermissions_def)
  have some: "\<exists>p. determinePermissions checker acl (Some c) = Inr p
           \<and> (p Read = Some True \<longleftrightarrow> ACL_Read \<in> set (acceptedModes checker acl c))
           \<and> (p Append = Some True \<longleftrightarrow>
                ACL_Write \<in> set (acceptedModes checker acl c)
                \<or> ACL_Append \<in> set (acceptedModes checker acl c))
           \<and> (p Write = Some True \<longleftrightarrow> ACL_Write \<in> set (acceptedModes checker acl c))
           \<and> (p Control = Some True \<longleftrightarrow> ACL_Control \<in> set (acceptedModes checker acl c))
           \<and> p Create = None \<and> p Delete = None"
    if "\<not> (\<exists>v\<in>set (acceptedModes checker acl c). inheritedOnly v)"
    using that unfolding determinePermissions_Some by (auto simp: modesOf_iff)
  have nofalse: "\<forall>mode. q mode \<noteq> Some False"
    if "determinePermissions checker acl credential = Inr q"
  proof (cases credential)
    case None
    with that show ?thesis by (auto simp: determinePermissions_def)
  next
    case (Some c')
    with that show ?thesis unfolding Some determinePermissions_Some
      by (auto split: if_splits)
  qed
  from none some nofalse show ?thesis by blast
qed

theorem determinePermissions_modes_witness:
  "\<exists>p. determinePermissions (\<lambda>_ _ _. True)
          (authorization ''auth'' ACL_accessTo ''http://example.com/foo'' (NamedNode ACL_Write))
          (Some \<lparr>webId = None\<rparr>) = Inr p
       \<and> p Read \<noteq> Some True \<and> p Append = Some True \<and> p Write = Some True
       \<and> p Control \<noteq> Some True \<and> p Create = None \<and> p Delete = None"
proof -
  let ?acl = "authorization ''auth'' ACL_accessTo ''http://example.com/foo'' (NamedNode ACL_Write)"
  have am: "acceptedModes (\<lambda>_ _ _. True) ?acl \<lparr>webId = None\<rparr> = [ACL_Write]"
    by code_simp
  have ok: "\<not> (\<exists>v\<in>set (acceptedModes (\<lambda>_ _ _. True) ?acl \<lparr>webId = None\<rparr>). inheritedOnly v)"
    unfolding am by code_simp
  have ne: "ACL_Read \<noteq> ACL_Write" "ACL_Control \<noteq> ACL_Write"
    by (simp_all add: ACL_Read_def ACL_Write_def ACL_Control_def)
  from determinePermissions_modes [of "\<lambda>_ _ _. True" ?acl "\<lparr>webId = None\<rparr>"] ok
  show ?thesis unfolding am using ne by auto
qed

text \<open>
  Claim C5. In \<^verbatim>\<open>getAclRecursive\<close> a \<^verbatim>\<open>NotFoundHttpError\<close> of the store leads to the
  parent container; at a root container it becomes the \<^verbatim>\<open>ForbiddenHttpError\<close> with the
  message \<^verbatim>\<open>No ACL document found for root container\<close>; any other error of the store
  becomes an \<^verbatim>\<open>InternalServerError\<close> with the message
  \<^verbatim>\<open>Error reading ACL for {path}: {cause}\<close> and the error as its cause. The discovery
  (\<^verbatim>\<open>getAclRecursive\<close>, \<^verbatim>\<open>getAclMatches\<close>) raises no other error, and never a
  \<^verbatim>\<open>NotFoundHttpError\<close>.
\<close>

theorem getAclRecursive_error_handling:
  "(getRepresentation this (getAuxiliaryIdentifier this identifier) = Inl error
      \<and> isNotFoundHttpError error \<and> \<not> isRootContainer this identifier \<longrightarrow>
      getAclRecursive this identifier requests =
        getAclRecursive this (getParentContainer this identifier)
          (requests @ [getAuxiliaryIdentifier this identifier]))
   \<and> (getRepresentation this (getAuxiliaryIdentifier this identifier) = Inl error
      \<and> isNotFoundHttpError error \<and> isRootContainer this identifier \<longrightarrow>
      getAclRecursive this identifier requests =
        Some (requests @ [getAuxiliaryIdentifier this identifier],
              Inl (ForbiddenHttpError ''No ACL document found for root container'')))
   \<and> (getRepresentation this (getAuxiliaryIdentifier this identifier) = Inl error
      \<and> \<not> isNotFoundHttpError error \<longrightarrow>
      getAclRecursive this identifier requests =
        Some (requests @ [getAuxiliaryIdentifier this identifier],
              Inl (InternalServerError
                    (''Error reading ACL for '' @ identifier @ '': '' @ createErrorMessage error)
                    error)))
   \<and> (getAclRecursive this identifier requests = Some (requests', Inl e) \<longrightarrow>
        discoveryError this e \<and> \<not> isNotFoundHttpError e)
   \<and> (getAclMatches this targets = Some (requests', Inl e) \<longrightarrow>
        discoveryError this e \<and> \<not> isNotFoundHttpError e)"
proof -
  have nf: "discoveryError this e \<Longrightarrow> \<not> isNotFoundHttpError e"
    by (auto simp: discoveryError_def)
  have a: "getAclRecursive this identifier requests =
        getAclRecursive this (getParentContainer this identifier)
          (requests @ [getAuxiliaryIdentifier this identifier])"
    if "getRepresentation this (getAuxiliaryIdentifier this identifier) = Inl error"
      "isNotFoundHttpError error" "\<not> isRootContainer this identifier"
    using that by (subst getAclRecursive.simps) (simp add: Let_def)
  have b: "getAclRecursive this identifier requests =
        Some (requests @ [getAuxiliaryIdentifier this identifier],
              Inl (ForbiddenHttpError ''No ACL document found for root container''))"
    if "getRepresentation this (getAuxiliaryIdentifier this identifier) = Inl error"
      "isNotFoundHttpError error" "isRootContainer this identifier"
    using that by (subst getAclRecursive.simps) (simp add: Let_def)
  have c: "getAclRecursive this identifier requests =
        Some (requests @ [getAuxiliaryIdentifier this identifier],
              Inl (InternalServerError
                    (''Error reading ACL for '' @ identifier @ '': '' @ createErrorMessage error)
                    error))"
    if "getRepresentation this (getAuxiliaryIdentifier this identifier) = Inl error"
      "\<not> isNotFoundHttpError error"
    using that by (subst getAclRecursive.simps) (simp add: Let_def)
  have d: "discoveryError this e \<and> \<not> isNotFoundHttpError e"
    if "getAclRecursive this identifier requests = Some (requests', Inl e)"
    using getAclRecursive_error [OF that] nf by blast
  have e: "discoveryError this e \<and> \<not> isNotFoundHttpError e"
    if "getAclMatches this targets = Some (requests', Inl e)"
    using getAclMatches_loop_result [of this targets "[]" "[]" "(requests', Inl e)"] that nf
    by (simp add: getAclMatches_def)
  from a b c d e show ?thesis by blast
qed

theorem getAclRecursive_error_handling_witness:
  "getAclRecursive (testReader (\<lambda>_. Inl (NotFoundHttpError [])) (\<lambda>_ _ _. True))
     ''http://example.com/foo'' []
   = Some ([''http://example.com/foo.acl'', ''http://example.com/.acl''],
           Inl (ForbiddenHttpError ''No ACL document found for root container''))
   \<and> getAclRecursive (testReader (\<lambda>_. Inl (Error ''TEST!'')) (\<lambda>_ _ _. True))
     ''http://example.com/foo'' []
   = Some ([''http://example.com/foo.acl''],
           Inl (InternalServerError ''Error reading ACL for http://example.com/foo: TEST!''
                 (Error ''TEST!'')))
   \<and> discoveryError (testReader (\<lambda>_. Inl (Error ''TEST!'')) (\<lambda>_ _ _. True))
       (InternalServerError ''Error reading ACL for http://example.com/foo: TEST!'' (Error ''TEST!''))"
proof -
  let ?nf = "testReader (\<lambda>_. Inl (NotFoundHttpError [])) (\<lambda>_ _ _. True)"
  let ?te = "testReader (\<lambda>_. Inl (Error ''TEST!'')) (\<lambda>_ _ _. True)"
  have p: "getParentContainer ?nf ''http://example.com/foo'' = ''http://example.com/''"
    by (simp add: testReader_def parentPath_def)
  have 1: "getAclRecursive ?nf ''http://example.com/foo'' []
           = getAclRecursive ?nf ''http://example.com/'' [''http://example.com/foo.acl'']"
    using getAclRecursive_error_handling
            [of ?nf "''http://example.com/foo''" "NotFoundHttpError []" "[]"] p
    by (simp add: testReader_def)
  have 2: "getAclRecursive ?nf ''http://example.com/'' [''http://example.com/foo.acl'']
           = Some ([''http://example.com/foo.acl'', ''http://example.com/.acl''],
               Inl (ForbiddenHttpError ''No ACL document found for root container''))"
    using getAclRecursive_error_handling
            [of ?nf "''http://example.com/''" "NotFoundHttpError []" "[''http://example.com/foo.acl'']"]
    by (simp add: testReader_def)
  have 3: "getAclRecursive ?te ''http://example.com/foo'' []
           = Some ([''http://example.com/foo.acl''],
               Inl (InternalServerError ''Error reading ACL for http://example.com/foo: TEST!''
                     (Error ''TEST!'')))"
    using getAclRecursive_error_handling
            [of ?te "''http://example.com/foo''" "Error ''TEST!''" "[]"]
    by (simp add: testReader_def)
  have 4: "discoveryError ?te
       (InternalServerError ''Error reading ACL for http://example.com/foo: TEST!'' (Error ''TEST!''))"
    using getAclRecursive_error_handling
            [of ?te "''http://example.com/foo''" _ "[]" "[''http://example.com/foo.acl'']"
               "InternalServerError ''Error reading ACL for http://example.com/foo: TEST!'' (Error ''TEST!'')"]
          3
    by simp
  from 1 2 3 4 show ?thesis by simp
qed

text \<open>
  Claim C6. The claim says that \<^verbatim>\<open>handle\<close> returns a PermissionMap for every input. With
  a store that has no ACL resource for the root container it throws the
  \<^verbatim>\<open>ForbiddenHttpError\<close> of the discovery instead, also when the identifier strategy
  keeps its contract.
\<close>

theorem WebAclReader_handle_no_root_acl:
  "reachesRoot (testReader (\<lambda>_. Inl (NotFoundHttpError [])) (\<lambda>_ _ _. True))
     (length ''http://example.com/'') ''http://example.com/''
   \<and> WebAclReader_handle (testReader (\<lambda>_. Inl (NotFoundHttpError [])) (\<lambda>_ _ _. True))
       Map.empty [(''http://example.com/'', {Read})]
     = Some ([''http://example.com/.acl''],
             Inl (ForbiddenHttpError ''No ACL document found for root container''))"
proof -
  have "reachesRoot (testReader (\<lambda>_. Inl (NotFoundHttpError [])) (\<lambda>_ _ _. True))
     (length ''http://example.com/'') ''http://example.com/''"
    by code_simp
  moreover have "(case WebAclReader_handle
            (testReader (\<lambda>_. Inl (NotFoundHttpError [])) (\<lambda>_ _ _. True))
            Map.empty [(''http://example.com/'', {Read})] of
          Some (rq, Inl e) \<Rightarrow>
            rq = [''http://example.com/.acl'']
            \<and> e = ForbiddenHttpError ''No ACL document found for root container''
        | _ \<Rightarrow> False)"
    by code_simp
  ultimately show ?thesis by (simp split: option.splits prod.splits sum.splits)
qed

text \<open>
  Claim C6, amended. When the identifier strategy keeps its contract at every target
  (each step to the parent container shortens the path, and a root container is reached),
  \<^verbatim>\<open>handle\<close> terminates. It throws one of the errors of the discovery or an error that
  \<^verbatim>\<open>determinePermissions\<close> throws, or it returns a PermissionMap whose keys are exactly
  the keys of the input, each with a Permission for both the public and the agent
  group. Each iteration of the discovery loop picks a target of greatest length. When an
  ACL resource is found for it, the iteration claims, for this ACL resource, exactly the
  remaining targets whose path is a substring of the path of the picked target and at
  least as long as the path of the identifier where the ACL resource was found, and
  goes on with the other targets; under the contract the picked target is one of the
  claimed. When the discovery throws, the loop throws that error; with no target left it
  returns the map it has built.
\<close>

theorem WebAclReader_handle_terminates_with_input_keys:
  "((\<forall>t\<in>set (im_keys accessMap). reachesRoot this (length t) t) \<longrightarrow>
      (\<exists>requests r. WebAclReader_handle this credentials accessMap = Some (requests, r)
         \<and> (case r of
               Inl e \<Rightarrow> discoveryError this e
                 \<or> (\<exists>store credential.
                       determinePermissions (accessChecker this) store credential = Inl e)
             | Inr pm \<Rightarrow> set (im_keys pm) = set (im_keys accessMap) \<and> bothGroups pm)))
   \<and> (targets \<noteq> [] \<longrightarrow>
        longestTarget targets \<in> set targets
        \<and> (\<forall>t\<in>set targets. length t \<le> length (longestTarget targets)))
   \<and> (targets \<noteq> []
        \<and> getAclRecursive this (longestTarget targets) requests0 = Some (requests1, Inr aclMatch) \<longrightarrow>
        getAclMatches_loop this targets storeMap requests0 =
          getAclMatches_loop this
            (filter (\<lambda>target. \<not> (sublist target (longestTarget targets)
                                \<and> length (fst aclMatch) \<le> length target)) targets)
            (storeMap @ [(aclMatch,
               filter (\<lambda>target. sublist target (longestTarget targets)
                                \<and> length (fst aclMatch) \<le> length target) targets)])
            requests1)
   \<and> (targets \<noteq> [] \<and> reachesRoot this n (longestTarget targets)
        \<and> getAclRecursive this (longestTarget targets) requests0 = Some (requests1, Inr aclMatch) \<longrightarrow>
        longestTarget targets
          \<in> set (filter (\<lambda>target. sublist target (longestTarget targets)
                                  \<and> length (fst aclMatch) \<le> length target) targets))
   \<and> (targets \<noteq> []
        \<and> getAclRecursive this (longestTarget targets) requests0 = Some (requests1, Inl e) \<longrightarrow>
        getAclMatches_loop this targets storeMap requests0 = Some (requests1, Inl e))
   \<and> getAclMatches_loop this [] storeMap requests0 = Some (requests0, Inr storeMap)"
proof -
  have a: "\<exists>requests r. WebAclReader_handle this credentials accessMap = Some (requests, r)
         \<and> (case r of
               Inl e \<Rightarrow> discoveryError this e
                 \<or> (\<exists>store credential.
                       determinePermissions (accessChecker this) store credential = Inl e)
             | Inr pm \<Rightarrow> set (im_keys pm) = set (im_keys accessMap) \<and> bothGroups pm)"
    if c: "\<forall>t\<in>set (im_keys accessMap). reachesRoot this (length t) t"
  proof -
    from WebAclReader_handle_returns [OF c] obtain requests r where
      h: "WebAclReader_handle this credentials accessMap = Some (requests, r)" by force
    have "case r of
               Inl e \<Rightarrow> discoveryError this e
                 \<or> (\<exists>store credential.
                       determinePermissions (accessChecker this) store credential = Inl e)
             | Inr pm \<Rightarrow> set (im_keys pm) = set (im_keys accessMap) \<and> bothGroups pm"
    proof (cases r)
      case (Inl e)
      with h WebAclReader_handle_throws [of this credentials accessMap requests e]
      show ?thesis by simp
    next
      case (Inr pm)
      with h WebAclReader_handle_result show ?thesis by auto
    qed
    with h show ?thesis by blast
  qed
  have b: "longestTarget targets \<in> set targets
        \<and> (\<forall>t\<in>set targets. length t \<le> length (longestTarget targets))"
    if "targets \<noteq> []"
    using longestTarget_in [OF that] longestTarget_longest by blast
  have c: "getAclMatches_loop this targets storeMap requests0 =
          getAclMatches_loop this
            (filter (\<lambda>target. \<not> (sublist target (longestTarget targets)
                                \<and> length (fst aclMatch) \<le> length target)) targets)
            (storeMap @ [(aclMatch,
               filter (\<lambda>target. sublist target (longestTarget targets)
                                \<and> length (fst aclMatch) \<le> length target) targets)])
            requests1"
    if "targets \<noteq> []"
      "getAclRecursive this (longestTarget targets) requests0 = Some (requests1, Inr aclMatch)"
    using that by (rule getAclMatches_loop_claims)
  have d: "longestTarget targets
          \<in> set (filter (\<lambda>target. sublist target (longestTarget targets)
                                  \<and> length (fst aclMatch) \<le> length target) targets)"
    if "targets \<noteq> []" "reachesRoot this n (longestTarget targets)"
      "getAclRecursive this (longestTarget targets) requests0 = Some (requests1, Inr aclMatch)"
    using usesAcl_longest [OF that(3) that(2)] longestTarget_in [OF that(1)]
    by (simp add: usesAcl_def)
  have e: "getAclMatches_loop this targets storeMap requests0 = Some (requests1, Inl e)"
    if "targets \<noteq> []"
      "getAclRecursive this (longestTarget targets) requests0 = Some (requests1, Inl e)"
    using that by (rule getAclMatches_loop_throws)
  have f: "getAclMatches_loop this [] storeMap requests0 = Some (requests0, Inr storeMap)"
    by (subst getAclMatches_loop.simps) simp
  from a b c d e f show ?thesis by blast
qed

theorem WebAclReader_handle_terminates_with_input_keys_witness:
  "(\<exists>requests pm.
     WebAclReader_handle (testReader rootAclStore (\<lambda>_ _ _. True))
       [public \<mapsto> \<lparr>webId = None\<rparr>]
       [(''http://example.com/foo'', {Read}), (''http://example.com/bar/baz'', {})]
     = Some (requests, Inr pm)
     \<and> set (im_keys pm) = {''http://example.com/foo'', ''http://example.com/bar/baz''}
     \<and> bothGroups pm)
   \<and> longestTarget [''http://example.com/foo/'', ''http://example.com/foo/bar'',
                      ''http://example.com/baz'']
       = ''http://example.com/foo/bar''
   \<and> getAclMatches_loop (testReader rootAclStore (\<lambda>_ _ _. True))
         [''http://example.com/foo/'', ''http://example.com/foo/bar'', ''http://example.com/baz'']
         [] []
       = getAclMatches_loop (testReader rootAclStore (\<lambda>_ _ _. True))
           [''http://example.com/baz'']
           [((''http://example.com/'',
              authorization ''auth'' ACL_default ''http://example.com/'' (NamedNode ACL_Read)),
             [''http://example.com/foo/'', ''http://example.com/foo/bar''])]
           [''http://example.com/foo/bar.acl'', ''http://example.com/foo/.acl'',
            ''http://example.com/.acl'']
   \<and> ''http://example.com/foo/bar''
       \<in> set (filter (\<lambda>target. sublist target ''http://example.com/foo/bar''
                              \<and> length ''http://example.com/'' \<le> length target)
                 [''http://example.com/foo/'', ''http://example.com/foo/bar'',
                  ''http://example.com/baz''])
   \<and> getAclMatches_loop (testReader (\<lambda>_. Inl (NotFoundHttpError [])) (\<lambda>_ _ _. True))
         [''http://example.com/''] [] []
       = Some ([''http://example.com/.acl''],
               Inl (ForbiddenHttpError ''No ACL document found for root container''))"
proof -
  let ?reader = "testReader rootAclStore (\<lambda>_ _ _. True)"
  let ?empty = "testReader (\<lambda>_. Inl (NotFoundHttpError [])) (\<lambda>_ _ _. True)"
  let ?credentials = "[public \<mapsto> \<lparr>webId = None\<rparr>]"
  let ?accessMap = "[(''http://example.com/foo'', {Read}), (''http://example.com/bar/baz'', {})]"
  let ?targets = "[''http://example.com/foo/'', ''http://example.com/foo/bar'',
                   ''http://example.com/baz'']"
  let ?store = "authorization ''auth'' ACL_default ''http://example.com/'' (NamedNode ACL_Read)"
  let ?requests = "[''http://example.com/foo/bar.acl'', ''http://example.com/foo/.acl'',
                    ''http://example.com/.acl'']"
  have "reachesRoot ?reader (length ''http://example.com/foo'') ''http://example.com/foo''"
    and "reachesRoot ?reader (length ''http://example.com/bar/baz'') ''http://example.com/bar/baz''"
    by code_simp+
  then have c: "\<forall>t\<in>set (im_keys ?accessMap). reachesRoot ?reader (length t) t"
    by (simp add: im_keys_def)
  have ok: "(case WebAclReader_handle ?reader ?credentials ?accessMap of
               Some (rq, Inr pm) \<Rightarrow> True | _ \<Rightarrow> False)"
    by code_simp
  from WebAclReader_handle_terminates_with_input_keys [of ?accessMap ?reader ?credentials, THEN conjunct1, THEN mp, OF c]
  obtain requests r where
    h: "WebAclReader_handle ?reader ?credentials ?accessMap = Some (requests, r)"
    and r: "case r of
               Inl e \<Rightarrow> discoveryError ?reader e
                 \<or> (\<exists>store credential.
                       determinePermissions (accessChecker ?reader) store credential = Inl e)
             | Inr pm \<Rightarrow> set (im_keys pm) = set (im_keys ?accessMap) \<and> bothGroups pm"
    by blast
  from ok h obtain pm where pm: "r = Inr pm" by (cases r) auto
  with r have "set (im_keys pm) = {''http://example.com/foo'', ''http://example.com/bar/baz''}
               \<and> bothGroups pm"
    by (simp add: im_keys_def)
  with h pm have 1: "\<exists>requests pm.
     WebAclReader_handle ?reader ?credentials ?accessMap = Some (requests, Inr pm)
     \<and> set (im_keys pm) = {''http://example.com/foo'', ''http://example.com/bar/baz''}
     \<and> bothGroups pm" by blast
  have l: "longestTarget ?targets = ''http://example.com/foo/bar''" by code_simp
  have ne: "?targets \<noteq> []" by simp
  have g: "getAclRecursive ?reader (longestTarget ?targets) []
             = Some (?requests, Inr (''http://example.com/'', ?store))"
    unfolding l by code_simp
  have claimed: "filter (\<lambda>target. sublist target ''http://example.com/foo/bar''
                            \<and> length ''http://example.com/'' \<le> length target) ?targets
                 = [''http://example.com/foo/'', ''http://example.com/foo/bar'']"
    by code_simp
  have left: "filter (\<lambda>target. \<not> (sublist target ''http://example.com/foo/bar''
                            \<and> length ''http://example.com/'' \<le> length target)) ?targets
                 = [''http://example.com/baz'']"
    by code_simp
  from WebAclReader_handle_terminates_with_input_keys [of _ ?reader _ ?targets "[]" ?requests "(''http://example.com/'', ?store)" "[]",
           THEN conjunct2, THEN conjunct2, THEN conjunct1, THEN mp, OF conjI, OF ne g]
  have 2: "getAclMatches_loop ?reader ?targets [] []
       = getAclMatches_loop ?reader [''http://example.com/baz'']
           [((''http://example.com/'', ?store),
             [''http://example.com/foo/'', ''http://example.com/foo/bar''])]
           ?requests"
    unfolding l fst_conv claimed left by simp
  have rr: "reachesRoot ?reader (length ''http://example.com/foo/bar'') (longestTarget ?targets)"
    unfolding l by code_simp
  from WebAclReader_handle_terminates_with_input_keys [of _ ?reader _ ?targets "[]" ?requests "(''http://example.com/'', ?store)" _
              "length ''http://example.com/foo/bar''",
           THEN conjunct2, THEN conjunct2, THEN conjunct2, THEN conjunct1, THEN mp,
           OF conjI, OF ne conjI, OF rr g]
  have 4: "''http://example.com/foo/bar''
       \<in> set (filter (\<lambda>target. sublist target ''http://example.com/foo/bar''
                              \<and> length ''http://example.com/'' \<le> length target) ?targets)"
    unfolding l fst_conv .
  have le: "longestTarget [''http://example.com/''] = ''http://example.com/''" by code_simp
  have ge: "getAclRecursive ?empty (longestTarget [''http://example.com/'']) []
             = Some ([''http://example.com/.acl''],
                     Inl (ForbiddenHttpError ''No ACL document found for root container''))"
    unfolding le by code_simp
  have ne': "[''http://example.com/''] \<noteq> []" by simp
  from WebAclReader_handle_terminates_with_input_keys [of _ ?empty _ "[''http://example.com/'']" "[]" "[''http://example.com/.acl'']" _ "[]" _
              "ForbiddenHttpError ''No ACL document found for root container''",
           THEN conjunct2, THEN conjunct2, THEN conjunct2, THEN conjunct2, THEN conjunct1,
           THEN mp, OF conjI, OF ne' ge]
  have 3: "getAclMatches_loop ?empty [''http://example.com/''] [] []
       = Some ([''http://example.com/.acl''],
               Inl (ForbiddenHttpError ''No ACL document found for root container''))" .
  from 1 l 2 3 4 show ?thesis by blast
qed

text \<open>
  Claim C9. The claim says that no ACL resource is requested twice in one call. The
  reader keeps no record of the ACL resources it has read: for the targets
  \<^verbatim>\<open>/foo\<close> and \<^verbatim>\<open>/bar/baz\<close> with one ACL resource, at the root container, both walks
  end at the root container and request \<^verbatim>\<open>/.acl\<close>.
\<close>

theorem WebAclReader_handle_requests_root_acl_twice:
  "map_option fst
     (WebAclReader_handle (testReader rootAclStore (\<lambda>_ _ _. True)) Map.empty
        [(''http://example.com/foo'', {}), (''http://example.com/bar/baz'', {})])
   = Some [''http://example.com/bar/baz.acl'', ''http://example.com/bar/.acl'',
           ''http://example.com/.acl'', ''http://example.com/foo.acl'',
           ''http://example.com/.acl'']"
  by code_simp

text \<open>
  Claim C9, amended. Within one call of \<^verbatim>\<open>getAclRecursive\<close>, that is within one
  iteration of the discovery loop, no ACL resource is requested twice, when the identifier
  strategy keeps its contract and distinct identifiers have distinct ACL identifiers. The
  requests of a whole call of \<^verbatim>\<open>handle\<close> are the requests of at most as many such walks as
  there are targets; two walks can request the same ACL resource.
\<close>

theorem getAclRecursive_requests_distinct:
  "(reachesRoot this n identifier \<and> inj (getAuxiliaryIdentifier this)
      \<and> getAclRecursive this identifier requests0 = Some (requests1, r) \<longrightarrow>
      (\<exists>fetched. requests1 = requests0 @ fetched \<and> distinct fetched))
   \<and> ((\<forall>t\<in>set (im_keys accessMap). reachesRoot this (length t) t)
      \<and> inj (getAuxiliaryIdentifier this)
      \<and> WebAclReader_handle this credentials accessMap = Some (requests, result) \<longrightarrow>
      (\<exists>walks. requests = concat walks \<and> (\<forall>w\<in>set walks. distinct w)
         \<and> length walks \<le> length (im_keys accessMap)))"
proof -
  have a: "\<exists>fetched. requests1 = requests0 @ fetched \<and> distinct fetched"
    if "reachesRoot this n identifier" "inj (getAuxiliaryIdentifier this)"
      "getAclRecursive this identifier requests0 = Some (requests1, r)"
    using getAclRecursive_requests [OF that(3) that(1) that(2)] by simp
  have b: "\<exists>walks. requests = concat walks \<and> (\<forall>w\<in>set walks. distinct w)
         \<and> length walks \<le> length (im_keys accessMap)"
    if c: "\<forall>t\<in>set (im_keys accessMap). reachesRoot this (length t) t"
      and i: "inj (getAuxiliaryIdentifier this)"
      and h: "WebAclReader_handle this credentials accessMap = Some (requests, result)"
  proof -
    from h obtain r where "getAclMatches_loop this (im_keys accessMap) [] [] = Some (requests, r)"
      by (auto simp: WebAclReader_handle_def getAclMatches_def split: option.splits sum.splits)
    from getAclMatches_loop_requests [OF this c i] show ?thesis by simp
  qed
  from a b show ?thesis by blast
qed

theorem getAclRecursive_requests_distinct_witness:
  "getAclRecursive (testReader rootAclStore (\<lambda>_ _ _. True)) ''http://example.com/bar/baz'' []
   = Some ([''http://example.com/bar/baz.acl'', ''http://example.com/bar/.acl'',
            ''http://example.com/.acl''],
           Inr (''http://example.com/'',
                authorization ''auth'' ACL_default ''http://example.com/'' (NamedNode ACL_Read)))
   \<and> (\<exists>fetched. [''http://example.com/bar/baz.acl'', ''http://example.com/bar/.acl'',
                  ''http://example.com/.acl''] = [] @ fetched \<and> distinct fetched)"
proof -
  let ?reader = "testReader rootAclStore (\<lambda>_ _ _. True)"
  have rr: "reachesRoot ?reader (length ''http://example.com/bar/baz'') ''http://example.com/bar/baz''"
    by code_simp
  have inj: "inj (getAuxiliaryIdentifier ?reader)"
    by (simp add: testReader_def inj_on_def)
  have g: "getAclRecursive ?reader ''http://example.com/bar/baz'' []
     = Some ([''http://example.com/bar/baz.acl'', ''http://example.com/bar/.acl'',
              ''http://example.com/.acl''],
             Inr (''http://example.com/'',
                  authorization ''auth'' ACL_default ''http://example.com/'' (NamedNode ACL_Read)))"
    by code_simp
  from getAclRecursive_requests_distinct
         [of ?reader "length ''http://example.com/bar/baz''" "''http://example.com/bar/baz''" "[]"]
       rr inj g
  show ?thesis by blast
qed

section \<open>Properties of the access map utilities\<close>

lemma im_keys_simps:
  "im_keys [] = []" "im_keys ((i, v) # m) = i # im_keys m"
  by (simp_all add: im_keys_def)

lemma im_get_simps:
  "im_get [] k = None" "im_get ((i, v) # m) k = (if k = i then Some v else im_get m k)"
  by (simp_all add: im_get_def)

lemma set_im_keys_addAccessModes:
  "set (im_keys (addAccessModes i ms m)) = insert i (set (im_keys m))"
  by (simp add: addAccessModes_def set_im_keys_im_set split: option.splits)

lemma im_get_addAccessModes:
  "im_get (addAccessModes i ms m) k =
     (if k = i then Some (ms \<union> (case im_get m i of None \<Rightarrow> {} | Some s \<Rightarrow> s)) else im_get m k)"
  by (simp add: addAccessModes_def im_get_im_set split: option.splits)

lemma set_im_keys_fold_add:
  "set (im_keys (fold (\<lambda>(i, ms). addAccessModes i ms) add m)) = fst ` set add \<union> set (im_keys m)"
  by (induction add arbitrary: m) (auto simp: set_im_keys_addAccessModes)

lemma im_get_fold_add:
  "im_get (fold (\<lambda>(i, ms). addAccessModes i ms) add m) k =
     (if k \<in> fst ` set add
      then Some (\<Union> (snd ` {e \<in> set add. fst e = k}) \<union> (case im_get m k of None \<Rightarrow> {} | Some s \<Rightarrow> s))
      else im_get m k)"
proof (induction add arbitrary: m)
  case Nil
  then show ?case by simp
next
  case (Cons e add)
  obtain i ms where e: "e = (i, ms)" by (cases e)
  have s: "{x \<in> set (e # add). fst x = k} = (if i = k then {e} else {}) \<union> {x \<in> set add. fst x = k}"
    by (auto simp: e)
  show ?case
    unfolding fold_Cons comp_def e prod.case Cons.IH im_get_addAccessModes s [unfolded e]
    by (auto simp: image_iff split: option.splits)
qed

lemma set_im_keys_fold_keep:
  "set (im_keys (fold (\<lambda>(i, ms) r. if i \<in> remove then r else im_set i ms r) m r0))
     = (set (im_keys m) - remove) \<union> set (im_keys r0)"
  by (induction m arbitrary: r0) (auto simp: set_im_keys_im_set im_keys_simps split: if_splits)

lemma im_get_fold_keep:
  "distinct (im_keys m) \<Longrightarrow>
   im_get (fold (\<lambda>(i, ms) r. if i \<in> remove then r else im_set i ms r) m r0) k =
     (if k \<in> set (im_keys m) \<and> k \<notin> remove then im_get m k else im_get r0 k)"
proof (induction m arbitrary: r0)
  case Nil
  then show ?case by (simp add: im_keys_simps)
next
  case (Cons e m)
  obtain i ms where e: "e = (i, ms)" by (cases e)
  from Cons.prems have d: "distinct (im_keys m)" and ni: "i \<notin> set (im_keys m)"
    by (auto simp: im_keys_simps e)
  have nk: "im_get m i = None"
    using ni by (simp add: im_get_def im_keys_def map_of_eq_None_iff)
  show ?case
    unfolding fold_Cons comp_def e prod.case Cons.IH [OF d]
    using ni nk by (auto simp: im_get_im_set im_keys_simps im_get_simps)
qed

lemma set_im_keys_updateAccessMap:
  "set (im_keys (updateAccessMap add remove m)) = (set (im_keys m) - remove) \<union> fst ` set add"
  by (auto simp: updateAccessMap_def set_im_keys_fold_add set_im_keys_fold_keep im_keys_simps)

lemma im_get_updateAccessMap:
  "distinct (im_keys m) \<Longrightarrow>
   im_get (updateAccessMap add remove m) k =
     (if k \<in> fst ` set add
      then Some (\<Union> (snd ` {e \<in> set add. fst e = k})
                 \<union> (if k \<in> set (im_keys m) \<and> k \<notin> remove
                     then (case im_get m k of None \<Rightarrow> {} | Some s \<Rightarrow> s) else {}))
      else if k \<in> set (im_keys m) \<and> k \<notin> remove then im_get m k else None)"
  by (simp add: updateAccessMap_def im_get_fold_add im_get_fold_keep im_get_simps)

section \<open>Properties of WebAclAuxiliaryReader\<close>

lemma fold_setAclPermission_other:
  "k \<notin> fst ` set L \<Longrightarrow> im_get (fold setAclPermission L result) k = im_get result k"
  by (induction L arbitrary: result) (auto simp: setAclPermission_def im_get_im_set)

lemma set_im_keys_fold_setAclPermission:
  "set (im_keys (fold setAclPermission L result)) = fst ` set L \<union> set (im_keys result)"
  by (induction L arbitrary: result) (auto simp: setAclPermission_def set_im_keys_im_set)

lemma fold_setAclPermission_at:
  assumes "(identifier, subject, modes) \<in> set L" and "distinct (map fst L)"
    and "subject \<notin> fst ` set L"
  shows "im_get (fold setAclPermission L result) identifier
           = Some (WebAclAuxiliaryReader_updatePermission (im_get result subject))"
proof -
  from assms(1) obtain L1 L2 where L: "L = L1 @ (identifier, subject, modes) # L2"
    by (meson split_list)
  from assms(2) have n1: "identifier \<notin> fst ` set L1" and n2: "identifier \<notin> fst ` set L2"
    unfolding L by auto
  from assms(3) have s1: "subject \<notin> fst ` set L1" unfolding L by auto
  have "im_get (fold setAclPermission L result) identifier
          = im_get (setAclPermission (identifier, subject, modes) (fold setAclPermission L1 result)) identifier"
    unfolding L by (simp add: fold_setAclPermission_other [OF n2])
  also have "\<dots> = Some (WebAclAuxiliaryReader_updatePermission
                         (im_get (fold setAclPermission L1 result) subject))"
    by (simp add: setAclPermission_def im_get_im_set)
  also have "im_get (fold setAclPermission L1 result) subject = im_get result subject"
    by (rule fold_setAclPermission_other [OF s1])
  finally show ?thesis .
qed

lemma findAcl_keys:
  "map fst (findAcl isAux getSubject accessMap) = filter isAux (im_keys accessMap)"
  by (simp add: findAcl_def comp_def)

lemma findAcl_snd:
  "fst ` set (map snd (findAcl isAux getSubject accessMap))
     = getSubject ` {a \<in> set (im_keys accessMap). isAux a}"
  by (auto simp: findAcl_def image_iff)

lemma findAcl_modes:
  "e \<in> set (map snd (findAcl isAux getSubject accessMap)) \<Longrightarrow> snd e = {Control}"
  by (auto simp: findAcl_def)

lemma WebAclAuxiliaryReader_handle_unfold:
  "WebAclAuxiliaryReader_handle reader isAux getSubject credentials accessMap =
     (if findAcl isAux getSubject accessMap = [] then reader credentials accessMap
      else case reader credentials
                  (updateAccessMap (map snd (findAcl isAux getSubject accessMap))
                     (set (map fst (findAcl isAux getSubject accessMap))) accessMap) of
             Inl e \<Rightarrow> Inl e
           | Inr result \<Rightarrow> Inr (fold setAclPermission (findAcl isAux getSubject accessMap) result))"
  unfolding WebAclAuxiliaryReader_handle_def Let_def setAclPermission_def by simp

lemma updatePermission_groups:
  "WebAclAuxiliaryReader_updatePermission None = Map.empty"
  "WebAclAuxiliaryReader_updatePermission (Some ps) g =
     (case ps g of
        None \<Rightarrow> None
      | Some permissions \<Rightarrow>
          Some (\<lambda>mode. if mode \<in> {Read, Append, Write, Control} then permissions Control else None))"
  by (simp_all add: WebAclAuxiliaryReader_updatePermission_def)

section \<open>Properties of ParentContainerReader\<close>

lemma updateGroup_step:
  assumes "\<forall>r. ps g = Some r \<longrightarrow> r < nextRef h \<and> \<not> isFrozen h r" and "cr < nextRef h"
  shows "\<exists>r h'. updateGroup (g, cr) (ps, h) = Inr (ps(g \<mapsto> r), h')
           \<and> (case ps g of
                 Some r0 \<Rightarrow> r = r0 \<and> nextRef h' = nextRef h
               | None \<Rightarrow> r = nextRef h \<and> nextRef h' = Suc (nextRef h))
           \<and> \<not> isFrozen h' r
           \<and> (\<forall>r'<nextRef h. isFrozen h' r' = isFrozen h r')
           \<and> (\<forall>r'. r' \<noteq> r \<longrightarrow> permissionOf h' r' = permissionOf h r')
           \<and> permissionOf h' r
               = childPermission (case ps g of Some r0 \<Rightarrow> permissionOf h r0 | None \<Rightarrow> Map.empty)
                   (permissionOf h cr)"
proof (cases "ps g")
  case None
  with assms(2) show ?thesis
    by (auto simp: updateGroup_def newPermission_def assignMode_def childPermission_def jsAnd_def
          fun_eq_iff)
next
  case (Some r0)
  with assms(1) have "\<not> isFrozen h r0" by simp
  with Some show ?thesis
    by (auto simp: updateGroup_def assignMode_def childPermission_def jsAnd_def fun_eq_iff)
qed

lemma childPermission_cong:
  "C Append = C' Append \<Longrightarrow> C Write = C' Write \<Longrightarrow> childPermission P C = childPermission P C'"
  by (simp add: childPermission_def)

lemma childPermission_other:
  "mode \<noteq> Create \<Longrightarrow> mode \<noteq> Delete \<Longrightarrow> childPermission P C mode = P mode"
  by (simp add: childPermission_def)

lemma onlyCreateDelete_refl: "onlyCreateDelete h h"
  by (simp add: onlyCreateDelete_def)

lemma onlyCreateDelete_trans:
  "onlyCreateDelete h h1 \<Longrightarrow> onlyCreateDelete h1 h2 \<Longrightarrow> onlyCreateDelete h h2"
  unfolding onlyCreateDelete_def by (metis (no_types, lifting) le_trans less_le_trans)

lemma updateGroup_step':
  assumes v: "validSet ps h" and c: "cr < nextRef h"
  obtains r h' where
    "updateGroup (g, cr) (ps, h) = Inr (ps(g \<mapsto> r), h')"
    "validSet (ps(g \<mapsto> r)) h'"
    "ps g = Some r \<or> (ps g = None \<and> r = nextRef h)"
    "nextRef h \<le> nextRef h'"
    "onlyCreateDelete h h'"
    "\<forall>r'. r' \<noteq> r \<longrightarrow> permissionOf h' r' = permissionOf h r'"
    "permissionOf h' r = childPermission (initialPermission ps h g) (permissionOf h cr)"
proof -
  from v have a: "\<forall>r. ps g = Some r \<longrightarrow> r < nextRef h \<and> \<not> isFrozen h r"
    by (simp add: validSet_def)
  from updateGroup_step [of ps g h cr, OF a c] obtain r h' where
    s: "updateGroup (g, cr) (ps, h) = Inr (ps(g \<mapsto> r), h')"
    and k: "case ps g of
                 Some r0 \<Rightarrow> r = r0 \<and> nextRef h' = nextRef h
               | None \<Rightarrow> r = nextRef h \<and> nextRef h' = Suc (nextRef h)"
    and nf: "\<not> isFrozen h' r"
    and fr: "\<forall>r'<nextRef h. isFrozen h' r' = isFrozen h r'"
    and ot: "\<forall>r'. r' \<noteq> r \<longrightarrow> permissionOf h' r' = permissionOf h r'"
    and va: "permissionOf h' r
               = childPermission (case ps g of Some r0 \<Rightarrow> permissionOf h r0 | None \<Rightarrow> Map.empty)
                   (permissionOf h cr)"
    by blast
  have k1: "ps g = Some r \<or> (ps g = None \<and> r = nextRef h)"
    using k by (cases "ps g") auto
  have k2: "nextRef h \<le> nextRef h'" using k by (cases "ps g") auto
  have rlt: "r < nextRef h'" using k a by (cases "ps g") auto
  have v1: "\<forall>g' r'. (ps(g \<mapsto> r)) g' = Some r' \<longrightarrow> r' < nextRef h' \<and> \<not> isFrozen h' r'"
  proof (intro allI impI)
    fix g' r' assume "(ps(g \<mapsto> r)) g' = Some r'"
    then consider "r' = r" | "ps g' = Some r'" by (cases "g' = g") simp_all
    then show "r' < nextRef h' \<and> \<not> isFrozen h' r'"
    proof cases
      case 1
      with rlt nf show ?thesis by simp
    next
      case 2
      with v have "r' < nextRef h \<and> \<not> isFrozen h r'" unfolding validSet_def by blast
      with fr k2 show ?thesis by (metis less_le_trans)
    qed
  qed
  have fresh: "\<forall>g'. ps g' \<noteq> Some r" if n: "ps g = None"
  proof (intro allI notI)
    fix g' assume "ps g' = Some r"
    with v have "r < nextRef h" unfolding validSet_def by blast
    moreover from k n have "r = nextRef h" by simp
    ultimately show False by simp
  qed
  have v2: "inj_on (ps(g \<mapsto> r)) (dom (ps(g \<mapsto> r)))"
  proof (rule inj_onI)
    fix x y assume x: "x \<in> dom (ps(g \<mapsto> r))" and y: "y \<in> dom (ps(g \<mapsto> r))"
      and e: "(ps(g \<mapsto> r)) x = (ps(g \<mapsto> r)) y"
    from v have inj: "inj_on ps (dom ps)" unfolding validSet_def by blast
    show "x = y"
    proof (cases "x = g"; cases "y = g")
      assume "x = g" "y \<noteq> g"
      with e y have "ps y = Some r" by auto
      with k1 fresh inj \<open>x = g\<close> \<open>y \<noteq> g\<close> show ?thesis
        by (metis domI inj_onD)
    next
      assume "x \<noteq> g" "y = g"
      with e x have "ps x = Some r" by auto
      with k1 fresh inj \<open>x \<noteq> g\<close> \<open>y = g\<close> show ?thesis
        by (metis domI inj_onD)
    next
      assume "x \<noteq> g" "y \<noteq> g"
      with e x y have "ps x = ps y" "x \<in> dom ps" "y \<in> dom ps" by auto
      with inj show ?thesis by (rule inj_onD)
    qed simp
  qed
  have ocd: "onlyCreateDelete h h'"
    unfolding onlyCreateDelete_def
  proof (intro conjI allI impI)
    show "nextRef h \<le> nextRef h'" by (rule k2)
  next
    fix r' assume "r' < nextRef h"
    with fr show "isFrozen h' r' = isFrozen h r'" by simp
  next
    fix r' mode assume lt: "r' < nextRef h" and m: "mode \<noteq> Create \<and> mode \<noteq> Delete"
    show "permissionOf h' r' mode = permissionOf h r' mode"
    proof (cases "r' = r")
      case False
      with ot show ?thesis by simp
    next
      case True
      with lt k1 have "ps g = Some r" by auto
      then show ?thesis
        using va m True by (simp add: childPermission_other)
    qed
  qed
  have vs: "validSet (ps(g \<mapsto> r)) h'"
    unfolding validSet_def using v1 v2 by blast
  have va': "permissionOf h' r = childPermission (initialPermission ps h g) (permissionOf h cr)"
    unfolding initialPermission_def by (rule va)
  show thesis by (rule that [OF s vs k1 k2 ocd ot va'])
qed

lemma validSet_inj:
  "validSet ps h \<Longrightarrow> ps g = Some r \<Longrightarrow> ps g' = Some r \<Longrightarrow> g = g'"
  unfolding validSet_def by (metis domI inj_onD)

lemma foldE_updateGroup:
  assumes "validSet ps h" and "distinct (map fst es)" and "\<forall>e\<in>set es. snd e < nextRef h"
  shows "\<exists>ps' h'.
      foldE updateGroup es (ps, h) = Inr (ps', h')
      \<and> validSet ps' h'
      \<and> (\<forall>g r. ps g = Some r \<longrightarrow> ps' g = Some r)
      \<and> dom ps' = dom ps \<union> fst ` set es
      \<and> (\<forall>g r. ps g = None \<and> ps' g = Some r \<longrightarrow> nextRef h \<le> r)
      \<and> onlyCreateDelete h h'
      \<and> (\<forall>r<nextRef h. (\<forall>g\<in>fst ` set es. ps g \<noteq> Some r) \<longrightarrow> permissionOf h' r = permissionOf h r)
      \<and> (\<forall>e\<in>set es. \<exists>r. ps' (fst e) = Some r
             \<and> permissionOf h' r
                 = childPermission (initialPermission ps h (fst e)) (permissionOf h (snd e)))"
  using assms
proof (induction es arbitrary: ps h)
  case Nil
  then show ?case by (auto simp: onlyCreateDelete_refl)
next
  case (Cons e es)
  obtain g cr where e: "e = (g, cr)" by (cases e)
  from Cons.prems(3) have c: "cr < nextRef h" by (simp add: e)
  from Cons.prems(2) have gn: "g \<notin> fst ` set es" and d: "distinct (map fst es)" by (auto simp: e)
  from updateGroup_step' [OF Cons.prems(1) c, of g] obtain r h1 where
    s: "updateGroup (g, cr) (ps, h) = Inr (ps(g \<mapsto> r), h1)"
    and v1: "validSet (ps(g \<mapsto> r)) h1"
    and k1: "ps g = Some r \<or> (ps g = None \<and> r = nextRef h)"
    and k2: "nextRef h \<le> nextRef h1"
    and ocd: "onlyCreateDelete h h1"
    and ot: "\<forall>r'. r' \<noteq> r \<longrightarrow> permissionOf h1 r' = permissionOf h r'"
    and va: "permissionOf h1 r = childPermission (initialPermission ps h g) (permissionOf h cr)"
    by blast
  let ?ps1 = "ps(g \<mapsto> r)"
  have c1: "\<forall>e\<in>set es. snd e < nextRef h1" using Cons.prems(3) k2 by auto
  from Cons.IH [OF v1 d c1] obtain ps' h' where
    f: "foldE updateGroup es (?ps1, h1) = Inr (ps', h')"
    and i2: "validSet ps' h'"
    and i3: "\<forall>g0 r0. ?ps1 g0 = Some r0 \<longrightarrow> ps' g0 = Some r0"
    and i4: "dom ps' = dom ?ps1 \<union> fst ` set es"
    and i5: "\<forall>g0 r0. ?ps1 g0 = None \<and> ps' g0 = Some r0 \<longrightarrow> nextRef h1 \<le> r0"
    and i6: "onlyCreateDelete h1 h'"
    and i7: "\<forall>r0<nextRef h1. (\<forall>g0\<in>fst ` set es. ?ps1 g0 \<noteq> Some r0) \<longrightarrow>
               permissionOf h' r0 = permissionOf h1 r0"
    and i8: "\<forall>e\<in>set es. \<exists>r0. ps' (fst e) = Some r0
             \<and> permissionOf h' r0
                 = childPermission (initialPermission ?ps1 h1 (fst e)) (permissionOf h1 (snd e))"
    by blast
  have rlt: "r < nextRef h1" using v1 unfolding validSet_def by (metis fun_upd_same)
  have rvalid: "ps g0 = Some q \<Longrightarrow> q < nextRef h" for g0 q
    using Cons.prems(1) unfolding validSet_def by blast
  have r_other: "q \<noteq> r" if "ps g0 = Some q" "g0 \<noteq> g" for g0 q
  proof
    assume "q = r"
    with that have a: "(ps(g \<mapsto> r)) g0 = Some r" by simp
    have b: "(ps(g \<mapsto> r)) g = Some r" by simp
    from validSet_inj [OF v1 a b] that show False by simp
  qed
  have 1: "foldE updateGroup (e # es) (ps, h) = Inr (ps', h')"
    using s f by (simp add: e)
  have 3: "\<forall>g0 r0. ps g0 = Some r0 \<longrightarrow> ps' g0 = Some r0"
  proof (intro allI impI)
    fix g0 r0 assume a: "ps g0 = Some r0"
    have "?ps1 g0 = Some r0" using a k1 by (cases "g0 = g") auto
    with i3 show "ps' g0 = Some r0" by blast
  qed
  have 4: "dom ps' = dom ps \<union> fst ` set (e # es)"
    using i4 by (auto simp: e)
  have 5: "\<forall>g0 r0. ps g0 = None \<and> ps' g0 = Some r0 \<longrightarrow> nextRef h \<le> r0"
  proof (intro allI impI)
    fix g0 r0 assume a: "ps g0 = None \<and> ps' g0 = Some r0"
    show "nextRef h \<le> r0"
    proof (cases "g0 = g")
      case True
      with a k1 have "r = nextRef h" by auto
      moreover from i3 have "ps' g = Some r" by simp
      ultimately show ?thesis using a True by simp
    next
      case False
      with a have "?ps1 g0 = None \<and> ps' g0 = Some r0" by simp
      with i5 have "nextRef h1 \<le> r0" by blast
      with k2 show ?thesis by simp
    qed
  qed
  have 6: "onlyCreateDelete h h'" using ocd i6 by (rule onlyCreateDelete_trans)
  have 7: "\<forall>r0<nextRef h. (\<forall>g0\<in>fst ` set (e # es). ps g0 \<noteq> Some r0) \<longrightarrow>
               permissionOf h' r0 = permissionOf h r0"
  proof (intro allI impI)
    fix r0 assume lt: "r0 < nextRef h" and no: "\<forall>g0\<in>fst ` set (e # es). ps g0 \<noteq> Some r0"
    from no have ng: "ps g \<noteq> Some r0" by (simp add: e)
    with k1 lt have ne: "r0 \<noteq> r" by auto
    have "\<forall>g0\<in>fst ` set es. ?ps1 g0 \<noteq> Some r0"
      using no gn by (auto simp: e)
    with i7 lt k2 have "permissionOf h' r0 = permissionOf h1 r0" by (metis less_le_trans)
    with ot ne show "permissionOf h' r0 = permissionOf h r0" by simp
  qed
  have 8: "\<forall>x\<in>set (e # es). \<exists>r0. ps' (fst x) = Some r0
             \<and> permissionOf h' r0
                 = childPermission (initialPermission ps h (fst x)) (permissionOf h (snd x))"
  proof
    fix x assume "x \<in> set (e # es)"
    then consider "x = e" | "x \<in> set es" by auto
    then show "\<exists>r0. ps' (fst x) = Some r0
             \<and> permissionOf h' r0
                 = childPermission (initialPermission ps h (fst x)) (permissionOf h (snd x))"
    proof cases
      case 1
      have p: "ps' g = Some r" using i3 by simp
      have "\<forall>g0\<in>fst ` set es. ?ps1 g0 \<noteq> Some r"
      proof
        fix g0 assume "g0 \<in> fst ` set es"
        with gn have "g0 \<noteq> g" by auto
        show "?ps1 g0 \<noteq> Some r"
        proof
          assume a: "?ps1 g0 = Some r"
          have b: "?ps1 g = Some r" by simp
          from validSet_inj [OF v1 a b] \<open>g0 \<noteq> g\<close> show False by simp
        qed
      qed
      with i7 rlt have "permissionOf h' r = permissionOf h1 r" by blast
      with va p have "ps' g = Some r \<and> permissionOf h' r
                 = childPermission (initialPermission ps h g) (permissionOf h cr)" by simp
      then show ?thesis unfolding 1 e by auto
    next
      case 2
      obtain g0 cr0 where x: "x = (g0, cr0)" by (cases x)
      from 2 gn have ne: "g0 \<noteq> g" by (force simp: x)
      from i8 2 obtain r0 where
        p: "ps' g0 = Some r0"
        and q: "permissionOf h' r0
                  = childPermission (initialPermission ?ps1 h1 g0) (permissionOf h1 cr0)"
        by (auto simp: x)
      have ip: "initialPermission ?ps1 h1 g0 = initialPermission ps h g0"
      proof (cases "ps g0")
        case None
        with ne show ?thesis by (simp add: initialPermission_def)
      next
        case (Some q0)
        with r_other ne have "q0 \<noteq> r" by blast
        with ot Some ne show ?thesis by (simp add: initialPermission_def)
      qed
      from 2 Cons.prems(3) have "cr0 < nextRef h" by (auto simp: x)
      with ocd have "permissionOf h1 cr0 Append = permissionOf h cr0 Append"
        and "permissionOf h1 cr0 Write = permissionOf h cr0 Write"
        by (auto simp: onlyCreateDelete_def)
      then have "childPermission (initialPermission ps h g0) (permissionOf h1 cr0)
                = childPermission (initialPermission ps h g0) (permissionOf h cr0)"
        by (rule childPermission_cong)
      with p q ip show ?thesis by (simp add: x)
    qed
  qed
  from 1 i2 3 4 5 6 7 8 show ?case by blast
qed

lemma group_entries_distinct: "distinct (map fst (group_entries cs))"
  by (auto simp: group_entries_def split: option.splits)

lemma group_entries_set: "set (group_entries cs) = {(g, r). cs g = Some r}"
  using group_entries_iff [of _ _ cs] by auto

lemma setAt_im_set: "setAt (im_set i ps res) k = (if k = i then ps else setAt res k)"
  by (simp add: setAt_def im_get_im_set)

lemma unshared_validSet: "unshared res h \<Longrightarrow> validSet (setAt res i) h"
  unfolding unshared_def validSet_def
  by (intro conjI inj_onI) (blast, metis domD option.distinct(1))

lemma updateChild_unfold:
  "updateChild (i, c, ms) (res, h) =
     (case foldE updateGroup (group_entries (setAt res c)) (setAt res i, h) of
        Inl e \<Rightarrow> Inl e
      | Inr (ps', h') \<Rightarrow> Inr (im_set i ps' res, h'))"
  by (simp add: updateChild_def ParentContainerReader_updatePermission_def setAt_def Let_def)

lemma updateChild_step:
  assumes u: "unshared res h"
  shows "\<exists>ps' h'.
      updateChild (i, c, ms) (res, h) = Inr (im_set i ps' res, h')
      \<and> unshared (im_set i ps' res) h'
      \<and> (\<forall>g r. setAt res i g = Some r \<longrightarrow> ps' g = Some r)
      \<and> dom ps' = dom (setAt res i) \<union> dom (setAt res c)
      \<and> onlyCreateDelete h h'
      \<and> (\<forall>r<nextRef h. (\<forall>g. setAt res i g \<noteq> Some r) \<longrightarrow> permissionOf h' r = permissionOf h r)
      \<and> (\<forall>g r. setAt res i g = Some r \<and> setAt res c g = None \<longrightarrow>
             permissionOf h' r = permissionOf h r)
      \<and> (\<forall>g cr. setAt res c g = Some cr \<longrightarrow>
            (\<exists>r. ps' g = Some r
               \<and> permissionOf h' r
                   = childPermission (initialPermission (setAt res i) h g) (permissionOf h cr)))"
proof -
  let ?ps = "setAt res i" and ?es = "group_entries (setAt res c)"
  have v: "validSet ?ps h" using u by (rule unshared_validSet)
  have c: "\<forall>e\<in>set ?es. snd e < nextRef h"
    using u unfolding unshared_def group_entries_set by auto
  have fs: "fst ` set ?es = dom (setAt res c)"
    unfolding group_entries_set by force
  from foldE_updateGroup [OF v group_entries_distinct c] obtain ps' h' where
    f: "foldE updateGroup ?es (?ps, h) = Inr (ps', h')"
    and b2: "validSet ps' h'"
    and b3: "\<forall>g r. ?ps g = Some r \<longrightarrow> ps' g = Some r"
    and b4: "dom ps' = dom ?ps \<union> fst ` set ?es"
    and b5: "\<forall>g r. ?ps g = None \<and> ps' g = Some r \<longrightarrow> nextRef h \<le> r"
    and b6: "onlyCreateDelete h h'"
    and b7: "\<forall>r<nextRef h. (\<forall>g\<in>fst ` set ?es. ?ps g \<noteq> Some r) \<longrightarrow>
               permissionOf h' r = permissionOf h r"
    and b8: "\<forall>e\<in>set ?es. \<exists>r. ps' (fst e) = Some r
             \<and> permissionOf h' r
                 = childPermission (initialPermission ?ps h (fst e)) (permissionOf h (snd e))"
    by blast
  have valid: "setAt res k g = Some r \<Longrightarrow> r < nextRef h \<and> \<not> isFrozen h r" for k g r
    using u unfolding unshared_def by blast
  have uniq: "setAt res k g = Some r \<Longrightarrow> setAt res k' g' = Some r \<Longrightarrow> k = k' \<and> g = g'"
    for k g k' g' r
    using u unfolding unshared_def by (metis option.distinct(1))
  have o1: "unshared (im_set i ps' res) h'"
    unfolding unshared_def setAt_im_set
  proof (intro conjI allI impI)
    fix k g r assume a: "(if k = i then ps' else setAt res k) g = Some r"
    show "r < nextRef h'"
    proof (cases "k = i")
      case True
      with a b2 show ?thesis unfolding validSet_def by auto
    next
      case False
      with a valid have "r < nextRef h" by auto
      with b6 show ?thesis unfolding onlyCreateDelete_def by simp
    qed
    show "\<not> isFrozen h' r"
    proof (cases "k = i")
      case True
      with a b2 show ?thesis unfolding validSet_def by auto
    next
      case False
      with a valid have "r < nextRef h \<and> \<not> isFrozen h r" by auto
      with b6 show ?thesis unfolding onlyCreateDelete_def by simp
    qed
  next
    fix k g k' g'
    assume a: "(if k = i then ps' else setAt res k) g \<noteq> None
               \<and> (if k = i then ps' else setAt res k) g = (if k' = i then ps' else setAt res k') g'"
    then obtain r where r1: "(if k = i then ps' else setAt res k) g = Some r"
      by blast
    with a have r2: "(if k' = i then ps' else setAt res k') g' = Some r" by simp
    have new: "ps' g0 = Some r \<Longrightarrow> setAt res k0 g1 = Some r \<Longrightarrow> k0 = i \<and> g0 = g1" for g0 k0 g1
    proof -
      assume p: "ps' g0 = Some r" and q: "setAt res k0 g1 = Some r"
      show "k0 = i \<and> g0 = g1"
      proof (cases "?ps g0")
        case None
        with b5 p have "nextRef h \<le> r" by blast
        moreover from valid q have "r < nextRef h" by blast
        ultimately show ?thesis by simp
      next
        case (Some r0)
        with b3 p have "r0 = r" by auto
        with Some uniq [of i g0 r k0 g1] q show ?thesis by auto
      qed
    qed
    show "k = k'"
    proof (cases "k = i"; cases "k' = i")
      assume "k = i" "k' \<noteq> i"
      with r1 r2 new [of g k' g'] show ?thesis by auto
    next
      assume "k \<noteq> i" "k' = i"
      with r1 r2 new [of g' k g] show ?thesis by auto
    next
      assume "k \<noteq> i" "k' \<noteq> i"
      with r1 r2 uniq [of k g r k' g'] show ?thesis by auto
    qed simp
    show "g = g'"
    proof (cases "k = i"; cases "k' = i")
      assume "k = i" "k' = i"
      with r1 r2 validSet_inj [OF b2, of g r g'] show ?thesis by auto
    next
      assume "k = i" "k' \<noteq> i"
      with r1 r2 new [of g k' g'] show ?thesis by auto
    next
      assume "k \<noteq> i" "k' = i"
      with r1 r2 new [of g' k g] show ?thesis by auto
    next
      assume "k \<noteq> i" "k' \<noteq> i"
      with r1 r2 uniq [of k g r k' g'] show ?thesis by auto
    qed
  qed
  have o4: "dom ps' = dom ?ps \<union> dom (setAt res c)" using b4 fs by simp
  have o5: "\<forall>r<nextRef h. (\<forall>g. ?ps g \<noteq> Some r) \<longrightarrow> permissionOf h' r = permissionOf h r"
    using b7 by blast
  have o7: "\<forall>g r. ?ps g = Some r \<and> setAt res c g = None \<longrightarrow> permissionOf h' r = permissionOf h r"
  proof (intro allI impI)
    fix g r assume a: "?ps g = Some r \<and> setAt res c g = None"
    then have lt: "r < nextRef h" using valid by blast
    have "\<forall>g0\<in>fst ` set ?es. ?ps g0 \<noteq> Some r"
    proof
      fix g0 assume "g0 \<in> fst ` set ?es"
      with fs a have "g0 \<noteq> g" by auto
      with a uniq [of i g r i g0] show "?ps g0 \<noteq> Some r" by auto
    qed
    with b7 lt show "permissionOf h' r = permissionOf h r" by blast
  qed
  have o6: "\<forall>g cr. setAt res c g = Some cr \<longrightarrow>
            (\<exists>r. ps' g = Some r
               \<and> permissionOf h' r
                   = childPermission (initialPermission ?ps h g) (permissionOf h cr))"
  proof (intro allI impI)
    fix g cr assume "setAt res c g = Some cr"
    then have "(g, cr) \<in> set ?es" unfolding group_entries_set by simp
    with b8 show "\<exists>r. ps' g = Some r
               \<and> permissionOf h' r
                   = childPermission (initialPermission ?ps h g) (permissionOf h cr)"
      by force
  qed
  have s: "updateChild (i, c, ms) (res, h) = Inr (im_set i ps' res, h')"
    unfolding updateChild_unfold f by simp
  from s o1 b3 o4 b6 o5 o7 o6 show ?thesis by blast
qed


lemma updateChild_stepE:
  assumes "unshared res h"
  obtains ps' h' where
    "updateChild (i, c, ms) (res, h) = Inr (im_set i ps' res, h')"
    "unshared (im_set i ps' res) h'"
    "\<forall>g r. setAt res i g = Some r \<longrightarrow> ps' g = Some r"
    "dom ps' = dom (setAt res i) \<union> dom (setAt res c)"
    "onlyCreateDelete h h'"
    "\<forall>r<nextRef h. (\<forall>g. setAt res i g \<noteq> Some r) \<longrightarrow> permissionOf h' r = permissionOf h r"
    "\<forall>g r. setAt res i g = Some r \<and> setAt res c g = None \<longrightarrow>
             permissionOf h' r = permissionOf h r"
    "\<forall>g cr. setAt res c g = Some cr \<longrightarrow>
            (\<exists>r. ps' g = Some r
               \<and> permissionOf h' r
                   = childPermission (initialPermission (setAt res i) h g) (permissionOf h cr))"
  using updateChild_step [OF assms, of i c ms] by (elim exE conjE) (rule that)

lemma foldE_updateChild:
  assumes "unshared res h"
  shows "\<exists>res' h'.
      foldE updateChild L (res, h) = Inr (res', h')
      \<and> unshared res' h'
      \<and> onlyCreateDelete h h'
      \<and> (\<forall>k g r. setAt res k g = Some r \<longrightarrow> setAt res' k g = Some r)
      \<and> set (im_keys res') = set (im_keys res) \<union> fst ` set L
      \<and> (\<forall>k. k \<notin> fst ` set L \<longrightarrow>
            im_get res' k = im_get res k
            \<and> (\<forall>g r. setAt res k g = Some r \<longrightarrow> permissionOf h' r = permissionOf h r))"
  using assms
proof (induction L arbitrary: res h)
  case Nil
  then show ?case by (simp add: onlyCreateDelete_refl)
next
  case (Cons e L)
  obtain i c ms where e: "e = (i, c, ms)" by (cases e)
  obtain ps1 h1 where
    s: "updateChild (i, c, ms) (res, h) = Inr (im_set i ps1 res, h1)"
    and u1: "unshared (im_set i ps1 res) h1"
    and o2: "\<forall>g r. setAt res i g = Some r \<longrightarrow> ps1 g = Some r"
    and o3: "dom ps1 = dom (setAt res i) \<union> dom (setAt res c)"
    and o4: "onlyCreateDelete h h1"
    and o5: "\<forall>r<nextRef h. (\<forall>g. setAt res i g \<noteq> Some r) \<longrightarrow> permissionOf h1 r = permissionOf h r"
    and o7: "\<forall>g r. setAt res i g = Some r \<and> setAt res c g = None \<longrightarrow>
             permissionOf h1 r = permissionOf h r"
    and o6: "\<forall>g cr. setAt res c g = Some cr \<longrightarrow>
            (\<exists>r. ps1 g = Some r
               \<and> permissionOf h1 r
                   = childPermission (initialPermission (setAt res i) h g) (permissionOf h cr))"
    by (rule updateChild_stepE [OF Cons.prems, of i c ms])
  let ?res1 = "im_set i ps1 res"
  from Cons.IH [OF u1] obtain res' h' where
    f: "foldE updateChild L (?res1, h1) = Inr (res', h')"
    and i2: "unshared res' h'"
    and i3: "onlyCreateDelete h1 h'"
    and i4: "\<forall>k g r. setAt ?res1 k g = Some r \<longrightarrow> setAt res' k g = Some r"
    and i5: "set (im_keys res') = set (im_keys ?res1) \<union> fst ` set L"
    and i6: "\<forall>k. k \<notin> fst ` set L \<longrightarrow>
            im_get res' k = im_get ?res1 k
            \<and> (\<forall>g r. setAt ?res1 k g = Some r \<longrightarrow> permissionOf h' r = permissionOf h1 r)"
    by (elim exE conjE) (rule that)
  have valid: "setAt res k g = Some r \<Longrightarrow> r < nextRef h" for k g r
    using Cons.prems unfolding unshared_def by blast
  have uniq: "setAt res k g = Some r \<Longrightarrow> setAt res k' g' = Some r \<Longrightarrow> k = k'"
    for k g k' g' r
    using Cons.prems unfolding unshared_def by (metis option.distinct(1))
  have mono1: "setAt res k g = Some r \<Longrightarrow> setAt ?res1 k g = Some r" for k g r
    using o2 by (auto simp: setAt_im_set)
  have 1: "foldE updateChild (e # L) (res, h) = Inr (res', h')"
    using s f by (simp add: e)
  have 3: "onlyCreateDelete h h'" using o4 i3 by (rule onlyCreateDelete_trans)
  have 4: "\<forall>k g r. setAt res k g = Some r \<longrightarrow> setAt res' k g = Some r"
    using mono1 i4 by blast
  have 5: "set (im_keys res') = set (im_keys res) \<union> fst ` set (e # L)"
    using i5 by (auto simp: e set_im_keys_im_set)
  have 6: "\<forall>k. k \<notin> fst ` set (e # L) \<longrightarrow>
            im_get res' k = im_get res k
            \<and> (\<forall>g r. setAt res k g = Some r \<longrightarrow> permissionOf h' r = permissionOf h r)"
  proof (intro allI impI conjI)
    fix k assume k: "k \<notin> fst ` set (e # L)"
    then have ki: "k \<noteq> i" and kL: "k \<notin> fst ` set L" by (auto simp: e)
    from i6 kL have "im_get res' k = im_get ?res1 k" by blast
    with ki show "im_get res' k = im_get res k" by (simp add: im_get_im_set)
    fix g r assume a: "setAt res k g = Some r"
    have "\<forall>g'. setAt res i g' \<noteq> Some r"
      using uniq [OF a] ki by blast
    with o5 valid [OF a] have "permissionOf h1 r = permissionOf h r" by blast
    moreover from i6 kL mono1 [OF a] have "permissionOf h' r = permissionOf h1 r" by blast
    ultimately show "permissionOf h' r = permissionOf h r" by simp
  qed
  from 1 i2 3 4 5 6 show ?case by blast
qed


lemma foldE_updateChildE:
  assumes "unshared res h"
  obtains res' h' where
    "foldE updateChild L (res, h) = Inr (res', h')"
    "unshared res' h'"
    "onlyCreateDelete h h'"
    "\<forall>k g r. setAt res k g = Some r \<longrightarrow> setAt res' k g = Some r"
    "set (im_keys res') = set (im_keys res) \<union> fst ` set L"
    "\<forall>k. k \<notin> fst ` set L \<longrightarrow>
            im_get res' k = im_get res k
            \<and> (\<forall>g r. setAt res k g = Some r \<longrightarrow> permissionOf h' r = permissionOf h r)"
  using foldE_updateChild [OF assms, of L] by (elim exE conjE) (rule that)

lemma foldE_updateChild_at:
  assumes u: "unshared res h"
    and L: "L = L1 @ (i, c, ms) # L2"
    and n1: "i \<notin> fst ` set L1" and n2: "i \<notin> fst ` set L2"
  shows "\<exists>res' h'.
      foldE updateChild L (res, h) = Inr (res', h')
      \<and> (\<forall>g cr. setAt res c g = Some cr \<longrightarrow>
            (\<exists>r. setAt res' i g = Some r
               \<and> permissionOf h' r
                   = childPermission (initialPermission (setAt res i) h g) (permissionOf h cr)))
      \<and> (\<forall>g r. setAt res i g = Some r \<longrightarrow> setAt res' i g = Some r)"
proof -
  obtain res1 h1 where
    f1: "foldE updateChild L1 (res, h) = Inr (res1, h1)"
    and u1: "unshared res1 h1"
    and c1: "onlyCreateDelete h h1"
    and m1: "\<forall>k g r. setAt res k g = Some r \<longrightarrow> setAt res1 k g = Some r"
    and y1: "set (im_keys res1) = set (im_keys res) \<union> fst ` set L1"
    and s1: "\<forall>k. k \<notin> fst ` set L1 \<longrightarrow>
            im_get res1 k = im_get res k
            \<and> (\<forall>g r. setAt res k g = Some r \<longrightarrow> permissionOf h1 r = permissionOf h r)"
    by (rule foldE_updateChildE [OF u, of L1])
  from s1 n1 have same: "setAt res1 i = setAt res i"
    and objs: "\<forall>g r. setAt res i g = Some r \<longrightarrow> permissionOf h1 r = permissionOf h r"
    by (auto simp: setAt_def)
  have ip: "initialPermission (setAt res1 i) h1 g = initialPermission (setAt res i) h g" for g
    unfolding same initialPermission_def using objs by (cases "setAt res i g") auto
  obtain ps2 h2 where
    s2: "updateChild (i, c, ms) (res1, h1) = Inr (im_set i ps2 res1, h2)"
    and u2: "unshared (im_set i ps2 res1) h2"
    and k2: "\<forall>g r. setAt res1 i g = Some r \<longrightarrow> ps2 g = Some r"
    and o3: "dom ps2 = dom (setAt res1 i) \<union> dom (setAt res1 c)"
    and o4: "onlyCreateDelete h1 h2"
    and o5: "\<forall>r<nextRef h1. (\<forall>g. setAt res1 i g \<noteq> Some r) \<longrightarrow> permissionOf h2 r = permissionOf h1 r"
    and o7: "\<forall>g r. setAt res1 i g = Some r \<and> setAt res1 c g = None \<longrightarrow>
             permissionOf h2 r = permissionOf h1 r"
    and o6: "\<forall>g cr. setAt res1 c g = Some cr \<longrightarrow>
            (\<exists>r. ps2 g = Some r
               \<and> permissionOf h2 r
                   = childPermission (initialPermission (setAt res1 i) h1 g) (permissionOf h1 cr))"
    by (rule updateChild_stepE [OF u1, of i c ms])
  let ?res2 = "im_set i ps2 res1"
  obtain res' h' where
    f3: "foldE updateChild L2 (?res2, h2) = Inr (res', h')"
    and u3: "unshared res' h'"
    and c3: "onlyCreateDelete h2 h'"
    and m3: "\<forall>k g r. setAt ?res2 k g = Some r \<longrightarrow> setAt res' k g = Some r"
    and y3: "set (im_keys res') = set (im_keys ?res2) \<union> fst ` set L2"
    and s3: "\<forall>k. k \<notin> fst ` set L2 \<longrightarrow>
            im_get res' k = im_get ?res2 k
            \<and> (\<forall>g r. setAt ?res2 k g = Some r \<longrightarrow> permissionOf h' r = permissionOf h2 r)"
    by (rule foldE_updateChildE [OF u2, of L2])
  from s3 n2 have fin: "setAt res' i = ps2"
    and fobj: "\<forall>g r. ps2 g = Some r \<longrightarrow> permissionOf h' r = permissionOf h2 r"
    by (auto simp: setAt_def im_get_im_set)
  have 1: "foldE updateChild L (res, h) = Inr (res', h')"
    unfolding L foldE_append f1 using s2 f3 by simp
  have 2: "\<forall>g cr. setAt res c g = Some cr \<longrightarrow>
            (\<exists>r. setAt res' i g = Some r
               \<and> permissionOf h' r
                   = childPermission (initialPermission (setAt res i) h g) (permissionOf h cr))"
  proof (intro allI impI)
    fix g cr assume a: "setAt res c g = Some cr"
    with m1 have "setAt res1 c g = Some cr" by blast
    with o6 obtain r where r: "ps2 g = Some r"
      and p: "permissionOf h2 r
                = childPermission (initialPermission (setAt res1 i) h1 g) (permissionOf h1 cr)"
      by blast
    from a u have "cr < nextRef h" unfolding unshared_def by blast
    with c1 have "permissionOf h1 cr Append = permissionOf h cr Append"
      and "permissionOf h1 cr Write = permissionOf h cr Write"
      by (auto simp: onlyCreateDelete_def)
    then have "childPermission (initialPermission (setAt res i) h g) (permissionOf h1 cr)
             = childPermission (initialPermission (setAt res i) h g) (permissionOf h cr)"
      by (rule childPermission_cong)
    with p ip r fobj fin show "\<exists>r. setAt res' i g = Some r
               \<and> permissionOf h' r
                   = childPermission (initialPermission (setAt res i) h g) (permissionOf h cr)"
      by auto
  qed
  have 3: "\<forall>g r. setAt res i g = Some r \<longrightarrow> setAt res' i g = Some r"
    using k2 same fin by simp
  from 1 2 3 show ?thesis by blast
qed

lemma findParents_keys:
  "fst ` set (findParents parentContainer accessMap)
     = {k. \<exists>modes. (k, modes) \<in> set accessMap \<and> (Create \<in> modes \<or> Delete \<in> modes)}"
  by (force simp: findParents_def image_iff)

lemma findParents_map_fst:
  "map fst (findParents parentContainer accessMap)
     = map fst (filter (\<lambda>(identifier, modes). Create \<in> modes \<or> Delete \<in> modes) accessMap)"
  by (simp add: findParents_def comp_def case_prod_unfold)

lemma findParents_distinct:
  "distinct (im_keys accessMap) \<Longrightarrow> distinct (map fst (findParents parentContainer accessMap))"
  unfolding findParents_map_fst im_keys_def by (rule distinct_map_filter)

lemma findParents_entry:
  "(identifier, modes) \<in> set accessMap \<Longrightarrow> Create \<in> modes \<or> Delete \<in> modes \<Longrightarrow>
   \<exists>ms. (identifier, parentContainer identifier, ms) \<in> set (findParents parentContainer accessMap)"
  by (force simp: findParents_def)

lemma childPermission_granted:
  "childPermission P C Create = Some True \<longleftrightarrow> C Append = Some True \<and> P Create \<noteq> Some False"
  "childPermission P C Delete = Some True \<longleftrightarrow>
     P Write = Some True \<and> C Write = Some True \<and> P Delete \<noteq> Some False"
  "P Create = Some False \<Longrightarrow>
     childPermission P C Create = (if C Append = None then None else Some False)"
  "P Delete = Some False \<Longrightarrow> childPermission P C Delete \<noteq> Some True"
  by (auto simp: childPermission_def jsAnd_def)

lemma ParentContainerReader_handle_unfold:
  "findParents parentContainer accessMap \<noteq> [] \<Longrightarrow>
   ParentContainerReader_handle reader parentContainer credentials accessMap heap =
     (case reader credentials
             (updateAccessMap (map snd (findParents parentContainer accessMap)) {} accessMap) heap of
        Inl e \<Rightarrow> Inl e
      | Inr (result, heap') \<Rightarrow>
          foldE updateChild (findParents parentContainer accessMap) (result, heap'))"
  by (simp add: ParentContainerReader_handle_def Let_def)

section \<open>The keys of the results of the readers\<close>

lemma set_im_keys_fold_im_set:
  "set (im_keys (fold (\<lambda>(identifier, v). im_set identifier v) es m)) = fst ` set es \<union> set (im_keys m)"
  by (induction es arbitrary: m) (auto simp: set_im_keys_im_set)

lemma set_im_keys_IdentifierMap_of: "set (im_keys (IdentifierMap_of es)) = fst ` set es"
  by (simp add: IdentifierMap_of_def set_im_keys_fold_im_set im_keys_simps)

lemma findReader_prefix: "findReader this path = Some n \<Longrightarrow> prefix (baseUrl this) path"
  by (simp add: findReader_def split: if_splits)

lemma set_update_subset: "set (AList.update k v al) \<subseteq> insert (k, v) (set al)"
  by (induction al) auto

text \<open>
  Every identifier that \<^verbatim>\<open>matchReaders\<close> gives to a reader is an identifier of the
  access map for which \<^verbatim>\<open>findReader\<close> has found this reader.
\<close>

lemma matchReaders_step:
  assumes inv: "\<forall>(n, m)\<in>set result. \<forall>k\<in>set (im_keys m). k \<in> S \<and> findReader this k = Some n"
    and i: "identifier \<in> S"
  shows "\<forall>(n, m)\<in>set (case findReader this identifier of
               None \<Rightarrow> result
             | Some reader \<Rightarrow>
                 (let matches = (case map_of result reader of None \<Rightarrow> [] | Some m \<Rightarrow> m)
                  in AList.update reader (im_set identifier modes matches) result)).
           \<forall>k\<in>set (im_keys m). k \<in> S \<and> findReader this k = Some n"
proof (cases "findReader this identifier")
  case None
  with inv show ?thesis by simp
next
  case (Some reader)
  let ?matches = "case map_of result reader of None \<Rightarrow> [] | Some m \<Rightarrow> m"
  have old: "\<forall>k\<in>set (im_keys ?matches). k \<in> S \<and> findReader this k = Some reader"
  proof (cases "map_of result reader")
    case None
    then show ?thesis by (simp add: im_keys_simps)
  next
    case (Some m)
    then have "(reader, m) \<in> set result" by (rule map_of_SomeD)
    with inv Some show ?thesis by auto
  qed
  have new: "\<forall>k\<in>set (im_keys (im_set identifier modes ?matches)). k \<in> S \<and> findReader this k = Some reader"
    unfolding set_im_keys_im_set using old i Some by simp
  show ?thesis
    unfolding Some option.case Let_def
  proof (intro ballI, clarify)
    fix n m k
    assume a: "(n, m) \<in> set (AList.update reader (im_set identifier modes ?matches) result)"
      and k: "k \<in> set (im_keys m)"
    from a set_update_subset [of reader "im_set identifier modes ?matches" result]
    have "(n, m) = (reader, im_set identifier modes ?matches) \<or> (n, m) \<in> set result" by auto
    then show "k \<in> S \<and> findReader this k = Some n"
    proof
      assume "(n, m) = (reader, im_set identifier modes ?matches)"
      with new k show ?thesis by simp
    next
      assume "(n, m) \<in> set result"
      with inv k show ?thesis by auto
    qed
  qed
qed

lemma matchReaders_fold:
  assumes "\<forall>(n, m)\<in>set result. \<forall>k\<in>set (im_keys m). k \<in> S \<and> findReader this k = Some n"
    and "set (im_keys accessMap) \<subseteq> S"
  shows "\<forall>(n, m)\<in>set (fold (\<lambda>(identifier, modes) result.
             case findReader this identifier of
               None \<Rightarrow> result
             | Some reader \<Rightarrow>
                 (let matches = (case map_of result reader of None \<Rightarrow> [] | Some m \<Rightarrow> m)
                  in AList.update reader (im_set identifier modes matches) result))
       accessMap result).
           \<forall>k\<in>set (im_keys m). k \<in> S \<and> findReader this k = Some n"
  using assms
proof (induction accessMap arbitrary: result)
  case Nil
  then show ?case by simp
next
  case (Cons e accessMap)
  obtain i0 ms where e: "e = (i0, ms)" by (cases e)
  from Cons.prems(2) have i: "i0 \<in> S" and rest: "set (im_keys accessMap) \<subseteq> S"
    by (simp_all add: e im_keys_simps)
  show ?case
    unfolding fold_Cons comp_def e prod.case
    by (rule Cons.IH [OF matchReaders_step [OF Cons.prems(1) i] rest])
qed

lemma matchReaders_keys:
  assumes "(n, m) \<in> set (matchReaders this accessMap)" and "k \<in> set (im_keys m)"
  shows "k \<in> set (im_keys accessMap) \<and> findReader this k = Some n"
proof -
  have "\<forall>(n, m)\<in>set (matchReaders this accessMap).
           \<forall>k\<in>set (im_keys m). k \<in> set (im_keys accessMap) \<and> findReader this k = Some n"
    unfolding matchReaders_def by (rule matchReaders_fold) simp_all
  with assms show ?thesis by auto
qed

text \<open>The results that the loop of \<^verbatim>\<open>handle\<close> collects are those of the matched readers.\<close>

lemma PathBasedReader_results:
  assumes "foldE (\<lambda>(reader, matches) results.
                    case readerOf reader credentials matches of
                      Inl e \<Rightarrow> Inl e
                    | Inr r \<Rightarrow> Inr (results @ [r])) L acc = Inr results"
    and "r \<in> set results"
  shows "r \<in> set acc \<or> (\<exists>(n, m)\<in>set L. readerOf n credentials m = Inr r)"
  using assms
proof (induction L arbitrary: acc)
  case Nil
  then show ?case by simp
next
  case (Cons e L)
  obtain n m where e: "e = (n, m)" by (cases e)
  from Cons.prems(1) obtain r0 where r0: "readerOf n credentials m = Inr r0"
    and rest: "foldE (\<lambda>(reader, matches) results.
                    case readerOf reader credentials matches of
                      Inl e \<Rightarrow> Inl e
                    | Inr r \<Rightarrow> Inr (results @ [r])) L (acc @ [r0]) = Inr results"
    by (auto simp: e split: sum.splits)
  from Cons.IH [OF rest Cons.prems(2)] r0 show ?case by (auto simp: e)
qed

lemma PathBasedReader_handle_keys:
  assumes h: "PathBasedReader_handle this readerOf credentials accessMap = Inr result"
    and k: "k \<in> set (im_keys result)"
  shows "\<exists>n m r. (n, m) \<in> set (matchReaders this accessMap)
           \<and> readerOf n credentials m = Inr r \<and> k \<in> set (im_keys r)"
proof -
  from h obtain results where
    f: "foldE (\<lambda>(reader, matches) results.
                    case readerOf reader credentials matches of
                      Inl e \<Rightarrow> Inl e
                    | Inr r \<Rightarrow> Inr (results @ [r]))
             (matchReaders this accessMap) [] = Inr results"
    and r: "result = IdentifierMap_of (concat results)"
    by (auto simp: PathBasedReader_handle_def split: sum.splits)
  from k have "k \<in> fst ` set (concat results)"
    unfolding r set_im_keys_IdentifierMap_of .
  then obtain r0 where r0: "r0 \<in> set results" and k0: "k \<in> set (im_keys r0)"
    by (auto simp: im_keys_def)
  from PathBasedReader_results [OF f r0] obtain n m where
    "(n, m) \<in> set (matchReaders this accessMap)" "readerOf n credentials m = Inr r0"
    by auto
  with k0 show ?thesis by blast
qed

lemma PathBasedReader_handle_within:
  assumes w: "\<forall>n. reportsOnInput (readerOf n)"
    and h: "PathBasedReader_handle this readerOf credentials accessMap = Inr result"
    and k: "k \<in> set (im_keys result)"
  shows "k \<in> set (im_keys accessMap) \<and> prefix (baseUrl this) k"
proof -
  from PathBasedReader_handle_keys [OF h k] obtain n m r where
    m: "(n, m) \<in> set (matchReaders this accessMap)"
    and r: "readerOf n credentials m = Inr r" and kr: "k \<in> set (im_keys r)"
    by blast
  from w r have "set (im_keys r) \<subseteq> set (im_keys m)"
    unfolding reportsOnInput_def by blast
  with kr have "k \<in> set (im_keys m)" by blast
  from matchReaders_keys [OF m this] findReader_prefix show ?thesis by blast
qed

lemma AllStaticReader_handle_keys:
  "\<exists>result. AllStaticReader_handle allow credentials accessMap = Inr result
      \<and> set (im_keys result) = set (im_keys accessMap)"
  by (simp add: AllStaticReader_handle_def set_im_keys_IdentifierMap_of image_image)

lemma set_im_keys_applyCredential:
  "set (im_keys (applyCredential identifier entry result)) = insert identifier (set (im_keys result))"
  by (simp add: applyCredential_def Let_def set_im_keys_im_set)

lemma set_im_keys_fold_applyCredential:
  "set (im_keys (fold (applyCredential identifier) entries result))
     \<subseteq> insert identifier (set (im_keys result))"
proof (induction entries arbitrary: result)
  case Nil
  then show ?case by auto
next
  case (Cons e entries)
  from Cons.IH [of "applyCredential identifier e result"]
    set_im_keys_applyCredential [of "identifier" e result]
  show ?case by auto
qed

lemma set_im_keys_applyPermissionMap:
  "set (im_keys (applyPermissionMap pm result)) \<subseteq> set (im_keys pm) \<union> set (im_keys result)"
  unfolding applyPermissionMap_def
proof (induction pm arbitrary: result)
  case Nil
  then show ?case by simp
next
  case (Cons e pm)
  obtain i ps where e: "e = (i, ps)" by (cases e)
  from Cons.IH [of "fold (applyCredential i) (group_entries ps) result"]
    set_im_keys_fold_applyCredential [of i "group_entries ps" result]
  show ?case by (auto simp: e im_keys_simps)
qed

lemma set_im_keys_combine:
  "set (im_keys (combine results)) \<subseteq> (\<Union>pm\<in>set results. set (im_keys pm))"
proof -
  have "set (im_keys (fold applyPermissionMap results acc))
          \<subseteq> (\<Union>pm\<in>set results. set (im_keys pm)) \<union> set (im_keys acc)" for acc
  proof (induction results arbitrary: acc)
    case Nil
    then show ?case by simp
  next
    case (Cons pm results)
    from Cons.IH [of "applyPermissionMap pm acc"] set_im_keys_applyPermissionMap [of pm acc]
    show ?case by auto
  qed
  from this [of "[]"] show ?thesis by (simp add: combine_def im_keys_simps)
qed

lemma findAuxiliary_keys:
  "fst ` set (findAuxiliary isAux usesOwn getSubject accessMap)
     = {a \<in> set (im_keys accessMap). isAux a \<and> \<not> usesOwn a}"
  by (force simp: findAuxiliary_def im_keys_def image_iff)

lemma findAuxiliary_subjects:
  "fst ` set (map snd (findAuxiliary isAux usesOwn getSubject accessMap))
     = getSubject ` {a \<in> set (im_keys accessMap). isAux a \<and> \<not> usesOwn a}"
  by (force simp: findAuxiliary_def im_keys_def image_iff)

lemma set_im_keys_fold_setSubject:
  "set (im_keys (fold (\<lambda>(identifier, subject, modes) result.
                         im_set identifier (f result subject) result) L result))
     = fst ` set L \<union> set (im_keys result)"
  by (induction L arbitrary: result) (auto simp: set_im_keys_im_set)

lemma updateChild_keys:
  assumes "updateChild entry (res, h) = Inr (res', h')"
  shows "set (im_keys res') = insert (fst entry) (set (im_keys res))"
  using assms
  by (auto simp: updateChild_def Let_def set_im_keys_im_set split: sum.splits prod.splits)

lemma foldE_updateChild_keys:
  assumes "foldE updateChild L (res, h) = Inr (res', h')"
  shows "set (im_keys res') = fst ` set L \<union> set (im_keys res)"
  using assms
proof (induction L arbitrary: res h)
  case Nil
  then show ?case by simp
next
  case (Cons e L)
  from Cons.prems obtain res1 h1 where 1: "updateChild e (res, h) = Inr (res1, h1)"
    and 2: "foldE updateChild L (res1, h1) = Inr (res', h')"
    by (auto split: sum.splits)
  from Cons.IH [OF 2] updateChild_keys [OF 1] show ?case by auto
qed

lemma findParents_parents:
  "fst ` set (map snd (findParents parentContainer accessMap))
     = parentContainer ` {i. \<exists>modes. (i, modes) \<in> set accessMap \<and> (Create \<in> modes \<or> Delete \<in> modes)}"
  by (force simp: findParents_def image_iff)

lemma AllStaticReader_reportsOnInput: "reportsOnInput (AllStaticReader_handle allow)"
  unfolding reportsOnInput_def
  using AllStaticReader_handle_keys by (metis Inl_Inr_False sum.inject(2) subset_refl)

lemma PathBasedReader_results_all:
  assumes "foldE (\<lambda>(reader, matches) results.
                    case readerOf reader credentials matches of
                      Inl e \<Rightarrow> Inl e
                    | Inr r \<Rightarrow> Inr (results @ [r])) L acc = Inr results"
  shows "set acc \<subseteq> set results
         \<and> (\<forall>(n, m)\<in>set L. \<exists>r\<in>set results. readerOf n credentials m = Inr r)"
  using assms
proof (induction L arbitrary: acc)
  case Nil
  then show ?case by simp
next
  case (Cons e L)
  obtain n m where e: "e = (n, m)" by (cases e)
  from Cons.prems obtain r0 where r0: "readerOf n credentials m = Inr r0"
    and rest: "foldE (\<lambda>(reader, matches) results.
                    case readerOf reader credentials matches of
                      Inl e \<Rightarrow> Inl e
                    | Inr r \<Rightarrow> Inr (results @ [r])) L (acc @ [r0]) = Inr results"
    by (auto simp: e split: sum.splits)
  from Cons.IH [OF rest] r0 show ?case by (auto simp: e)
qed

lemma PathBasedReader_handle_keys_iff:
  assumes h: "PathBasedReader_handle this readerOf credentials accessMap = Inr result"
  shows "k \<in> set (im_keys result) \<longleftrightarrow>
           (\<exists>n m r. (n, m) \<in> set (matchReaders this accessMap)
              \<and> readerOf n credentials m = Inr r \<and> k \<in> set (im_keys r))"
proof
  assume "k \<in> set (im_keys result)"
  then show "\<exists>n m r. (n, m) \<in> set (matchReaders this accessMap)
              \<and> readerOf n credentials m = Inr r \<and> k \<in> set (im_keys r)"
    by (rule PathBasedReader_handle_keys [OF h])
next
  assume "\<exists>n m r. (n, m) \<in> set (matchReaders this accessMap)
              \<and> readerOf n credentials m = Inr r \<and> k \<in> set (im_keys r)"
  then obtain n m r where m: "(n, m) \<in> set (matchReaders this accessMap)"
    and r: "readerOf n credentials m = Inr r" and k: "k \<in> set (im_keys r)" by blast
  from h obtain results where
    f: "foldE (\<lambda>(reader, matches) results.
                    case readerOf reader credentials matches of
                      Inl e \<Rightarrow> Inl e
                    | Inr r \<Rightarrow> Inr (results @ [r]))
             (matchReaders this accessMap) [] = Inr results"
    and res: "result = IdentifierMap_of (concat results)"
    by (auto simp: PathBasedReader_handle_def split: sum.splits)
  from PathBasedReader_results_all [OF f] m obtain r' where
    "r' \<in> set results" "readerOf n credentials m = Inr r'" by blast
  with r have "r \<in> set results" by simp
  with k have "k \<in> fst ` set (concat results)" by (auto simp: im_keys_def)
  then show "k \<in> set (im_keys result)"
    unfolding res set_im_keys_IdentifierMap_of .
qed

lemma findAcl_fst_set:
  "fst ` set (findAcl isAux getSubject accessMap) = {a \<in> set (im_keys accessMap). isAux a}"
proof -
  have "fst ` set (findAcl isAux getSubject accessMap)
          = set (map fst (findAcl isAux getSubject accessMap))" by simp
  also have "\<dots> = set (filter isAux (im_keys accessMap))"
    unfolding findAcl_keys ..
  finally show ?thesis by simp
qed

lemma WebAclAuxiliaryReader_handle_inner:
  assumes h: "WebAclAuxiliaryReader_handle reader isAux getSubject credentials accessMap = Inr final"
  shows "\<exists>inner result.
           reader credentials inner = Inr result
           \<and> set (im_keys inner)
               = (set (im_keys accessMap) - {a. isAux a})
                 \<union> getSubject ` {a \<in> set (im_keys accessMap). isAux a}
           \<and> set (im_keys final)
               = set (im_keys result) \<union> {a \<in> set (im_keys accessMap). isAux a}"
proof (cases "findAcl isAux getSubject accessMap = []")
  case True
  with h have r: "reader credentials accessMap = Inr final"
    by (simp add: WebAclAuxiliaryReader_handle_unfold)
  from True findAcl_fst_set [of isAux getSubject accessMap]
  have none: "{a \<in> set (im_keys accessMap). isAux a} = {}" by simp
  have 1: "set (im_keys accessMap)
               = (set (im_keys accessMap) - {a. isAux a})
                 \<union> getSubject ` {a \<in> set (im_keys accessMap). isAux a}"
    unfolding none using none by blast
  have 2: "set (im_keys final)
               = set (im_keys final) \<union> {a \<in> set (im_keys accessMap). isAux a}"
    unfolding none by simp
  show ?thesis
    apply (rule exI [of _ accessMap])
    apply (rule exI [of _ final])
    apply (intro conjI)
      apply (rule r)
     apply (rule 1)
    apply (rule 2)
    done
next
  case False
  let ?L = "findAcl isAux getSubject accessMap"
  let ?updatedMap = "updateAccessMap (map snd ?L) (set (map fst ?L)) accessMap"
  from h False obtain result where r: "reader credentials ?updatedMap = Inr result"
    and f: "final = fold setAclPermission ?L result"
    by (auto simp: WebAclAuxiliaryReader_handle_unfold split: sum.splits)
  have rm: "set (map fst ?L) = {a \<in> set (im_keys accessMap). isAux a}"
    using findAcl_fst_set [of isAux getSubject accessMap] by simp
  have 1: "set (im_keys ?updatedMap)
               = (set (im_keys accessMap) - {a. isAux a})
                 \<union> getSubject ` {a \<in> set (im_keys accessMap). isAux a}"
    unfolding set_im_keys_updateAccessMap findAcl_snd rm by auto
  have 2: "set (im_keys final)
               = set (im_keys result) \<union> {a \<in> set (im_keys accessMap). isAux a}"
    unfolding f set_im_keys_fold_setAclPermission findAcl_fst_set by auto
  show ?thesis
    apply (rule exI [of _ ?updatedMap])
    apply (rule exI [of _ result])
    apply (intro conjI)
      apply (rule r)
     apply (rule 1)
    apply (rule 2)
    done
qed

lemma AuxiliaryReader_handle_inner:
  assumes h: "AuxiliaryReader_handle reader isAux usesOwn getSubject credentials accessMap = Inr final"
  shows "\<exists>inner result.
           reader credentials inner = Inr result
           \<and> set (im_keys inner)
               = (set (im_keys accessMap) - {a. isAux a \<and> \<not> usesOwn a})
                 \<union> getSubject ` {a \<in> set (im_keys accessMap). isAux a \<and> \<not> usesOwn a}
           \<and> set (im_keys final)
               = set (im_keys result) \<union> {a \<in> set (im_keys accessMap). isAux a \<and> \<not> usesOwn a}"
proof (cases "findAuxiliary isAux usesOwn getSubject accessMap = []")
  case True
  with h have r: "reader credentials accessMap = Inr final"
    by (simp add: AuxiliaryReader_handle_def)
  from True findAuxiliary_keys [of isAux usesOwn getSubject accessMap]
  have none: "{a \<in> set (im_keys accessMap). isAux a \<and> \<not> usesOwn a} = {}" by simp
  have 1: "set (im_keys accessMap)
               = (set (im_keys accessMap) - {a. isAux a \<and> \<not> usesOwn a})
                 \<union> getSubject ` {a \<in> set (im_keys accessMap). isAux a \<and> \<not> usesOwn a}"
    unfolding none using none by blast
  have 2: "set (im_keys final)
               = set (im_keys final) \<union> {a \<in> set (im_keys accessMap). isAux a \<and> \<not> usesOwn a}"
    unfolding none by simp
  show ?thesis
    apply (rule exI [of _ accessMap])
    apply (rule exI [of _ final])
    apply (intro conjI)
      apply (rule r)
     apply (rule 1)
    apply (rule 2)
    done
next
  case False
  let ?L = "findAuxiliary isAux usesOwn getSubject accessMap"
  let ?updatedMap = "updateAccessMap (map snd ?L) (set (map fst ?L)) accessMap"
  from h False obtain result where r: "reader credentials ?updatedMap = Inr result"
    and f: "final = fold (\<lambda>(identifier, subject, modes) result.
                               im_set identifier
                                 (case im_get result subject of None \<Rightarrow> Map.empty | Some ps \<Rightarrow> ps)
                                 result) ?L result"
    by (auto simp: AuxiliaryReader_handle_def Let_def split: sum.splits)
  have rm: "set (map fst ?L) = {a \<in> set (im_keys accessMap). isAux a \<and> \<not> usesOwn a}"
    using findAuxiliary_keys [of isAux usesOwn getSubject accessMap] by simp
  have 1: "set (im_keys ?updatedMap)
               = (set (im_keys accessMap) - {a. isAux a \<and> \<not> usesOwn a})
                 \<union> getSubject ` {a \<in> set (im_keys accessMap). isAux a \<and> \<not> usesOwn a}"
    unfolding set_im_keys_updateAccessMap findAuxiliary_subjects rm by auto
  have 3: "set (im_keys final) = fst ` set ?L \<union> set (im_keys result)"
    unfolding f
    by (rule set_im_keys_fold_setSubject
          [of "\<lambda>result subject. case im_get result subject of None \<Rightarrow> Map.empty | Some ps \<Rightarrow> ps"])
  have 2: "set (im_keys final)
               = set (im_keys result) \<union> {a \<in> set (im_keys accessMap). isAux a \<and> \<not> usesOwn a}"
    unfolding 3 findAuxiliary_keys by auto
  show ?thesis
    apply (rule exI [of _ ?updatedMap])
    apply (rule exI [of _ result])
    apply (intro conjI)
      apply (rule r)
     apply (rule 1)
    apply (rule 2)
    done
qed

lemma ParentContainerReader_handle_inner:
  assumes h: "ParentContainerReader_handle reader parentContainer credentials accessMap heap
                = Inr (final, heap')"
  shows "\<exists>inner result h.
           reader credentials inner heap = Inr (result, h)
           \<and> set (im_keys inner)
               = set (im_keys accessMap)
                 \<union> parentContainer ` {i. \<exists>modes. (i, modes) \<in> set accessMap
                                            \<and> (Create \<in> modes \<or> Delete \<in> modes)}
           \<and> set (im_keys final)
               = set (im_keys result)
                 \<union> {i. \<exists>modes. (i, modes) \<in> set accessMap \<and> (Create \<in> modes \<or> Delete \<in> modes)}"
proof (cases "findParents parentContainer accessMap = []")
  case True
  with h have r: "reader credentials accessMap heap = Inr (final, heap')"
    by (simp add: ParentContainerReader_handle_def)
  from True findParents_keys [of parentContainer accessMap]
  have none: "{i. \<exists>modes. (i, modes) \<in> set accessMap \<and> (Create \<in> modes \<or> Delete \<in> modes)} = {}"
    by simp
  show ?thesis
    apply (rule exI [of _ accessMap])
    apply (rule exI [of _ final])
    apply (rule exI [of _ heap'])
    unfolding none using r by simp
next
  case False
  let ?L = "findParents parentContainer accessMap"
  let ?updatedMap = "updateAccessMap (map snd ?L) {} accessMap"
  from h obtain result h1 where r: "reader credentials ?updatedMap heap = Inr (result, h1)"
    and f: "foldE updateChild ?L (result, h1) = Inr (final, heap')"
    unfolding ParentContainerReader_handle_unfold [OF False]
    by (auto split: sum.splits)
  have 1: "set (im_keys ?updatedMap)
               = set (im_keys accessMap)
                 \<union> parentContainer ` {i. \<exists>modes. (i, modes) \<in> set accessMap
                                            \<and> (Create \<in> modes \<or> Delete \<in> modes)}"
    unfolding set_im_keys_updateAccessMap findParents_parents by auto
  have 2: "set (im_keys final)
               = set (im_keys result)
                 \<union> {i. \<exists>modes. (i, modes) \<in> set accessMap \<and> (Create \<in> modes \<or> Delete \<in> modes)}"
    unfolding foldE_updateChild_keys [OF f] findParents_keys by auto
  show ?thesis
    apply (rule exI [of _ ?updatedMap])
    apply (rule exI [of _ result])
    apply (rule exI [of _ h1])
    apply (intro conjI)
      apply (rule r)
     apply (rule 1)
    apply (rule 2)
    done
qed

section \<open>Claims about IntermediateModesExtractor\<close>

text \<open>
  Claim C7. For the create on \<^verbatim>\<open>/a/b/c/\<close> with only the root container existing, the
  extractor adds \<^verbatim>\<open>/a/b/\<close> and \<^verbatim>\<open>/a/\<close> with \<^verbatim>\<open>create\<close> and does not add the root, as
  the claim says. It reaches \<^verbatim>\<open>/a/\<close> only because the loop later visits the entry it
  has appended for \<^verbatim>\<open>/a/b/\<close>. When the source map already has an entry for \<^verbatim>\<open>/a/b/\<close>
  that stands before the entry that requires \<^verbatim>\<open>create\<close>, this entry gets \<^verbatim>\<open>create\<close>
  merged in but has already been visited: \<^verbatim>\<open>/a/\<close>, which does not exist, gets no
  \<^verbatim>\<open>create\<close>.
\<close>

theorem IntermediateModesExtractor_visited_ancestor:
  "IntermediateModesExtractor_handle (\<lambda>p. p = ''http://example.com/'') parentPath
     (Inr [(''http://example.com/a/b/c/'', {Create, Write})])
   = Some (Inr [(''http://example.com/a/b/c/'', {Create, Write}),
                (''http://example.com/a/b/'', {Create}),
                (''http://example.com/a/'', {Create})])
   \<and> IntermediateModesExtractor_handle (\<lambda>p. p = ''http://example.com/'') parentPath
       (Inr [(''http://example.com/a/b/'', {Read}), (''http://example.com/a/b/c'', {Create})])
     = Some (Inr [(''http://example.com/a/b/'', {Create, Read}),
                  (''http://example.com/a/b/c'', {Create})])
   \<and> parentPath ''http://example.com/a/b/c'' = ''http://example.com/a/b/''
   \<and> parentPath ''http://example.com/a/b/'' = ''http://example.com/a/''"
  by code_simp

section \<open>Claims about WebAclAuxiliaryReader\<close>

text \<open>
  Claim C4. The claim says that an ACL identifier whose subject is absent from the
  result of the inner reader gets an empty PermissionSet. When the subject is itself
  an ACL identifier of the input and stands before it, the loop has already written the
  subject's entry into the result, and the ACL identifier gets its permissions from there.
\<close>

theorem WebAclAuxiliaryReader_nested_acl:
  "im_get [(''http://example.com/foo'', [public \<mapsto> [Control \<mapsto> True]])]
      ''http://example.com/foo.acl'' = None
   \<and> (case WebAclAuxiliaryReader_handle
              (\<lambda>credentials accessMap.
                  Inr [(''http://example.com/foo'', [public \<mapsto> [Control \<mapsto> True]])])
              isAclIdentifier aclSubject [public \<mapsto> \<lparr>webId = None\<rparr>]
              [(''http://example.com/foo.acl'', {Read}),
               (''http://example.com/foo.acl.acl'', {Read})] of
         Inl e \<Rightarrow> False
       | Inr final \<Rightarrow>
           permissionAt final ''http://example.com/foo.acl.acl'' public Read = Some True
           \<and> im_get final ''http://example.com/foo.acl.acl'' \<noteq> Some Map.empty)"
proof -
  have 1: "im_get [(''http://example.com/foo'', [public \<mapsto> [Control \<mapsto> True]])]
      ''http://example.com/foo.acl'' = None"
    by (simp add: im_get_def)
  have 2: "(case WebAclAuxiliaryReader_handle
              (\<lambda>credentials accessMap.
                  Inr [(''http://example.com/foo'', [public \<mapsto> [Control \<mapsto> True]])])
              isAclIdentifier aclSubject [public \<mapsto> \<lparr>webId = None\<rparr>]
              [(''http://example.com/foo.acl'', {Read}),
               (''http://example.com/foo.acl.acl'', {Read})] of
         Inl e \<Rightarrow> False
       | Inr final \<Rightarrow>
           permissionAt final ''http://example.com/foo.acl.acl'' public Read = Some True)"
    by code_simp
  have 3: "permissionAt final i public Read = Some True \<Longrightarrow> im_get final i \<noteq> Some Map.empty"
    for final i
    by (auto simp: permissionAt_def)
  from 1 2 3 show ?thesis by (auto split: sum.splits)
qed

text \<open>
  Claim C4, amended. Let no subject of an ACL identifier of the input be itself an ACL
  identifier of the input. Then for every ACL identifier of the input: the outgoing
  access map does not hold it and holds its subject with the mode \<^verbatim>\<open>control\<close> and
  the modes the input requires of the subject; and the result holds, for the ACL
  identifier, the empty PermissionSet when the result of the inner reader has no entry
  for the subject, and else, for each credential group of the subject's entry, a
  Permission whose \<^verbatim>\<open>read\<close>, \<^verbatim>\<open>append\<close>, \<^verbatim>\<open>write\<close> and \<^verbatim>\<open>control\<close> are the subject's
  \<^verbatim>\<open>control\<close> in that group.
\<close>

theorem WebAclAuxiliaryReader_control:
  assumes "distinct (im_keys accessMap)"
    and "identifier \<in> set (im_keys accessMap)" and "isAuxiliaryIdentifier identifier"
    and "\<forall>a\<in>set (im_keys accessMap). isAuxiliaryIdentifier a \<longrightarrow>
           \<not> (isAuxiliaryIdentifier (getSubjectIdentifier a)
              \<and> getSubjectIdentifier a \<in> set (im_keys accessMap))"
    and "updatedMap =
           updateAccessMap
             (map snd (findAcl isAuxiliaryIdentifier getSubjectIdentifier accessMap))
             (set (map fst (findAcl isAuxiliaryIdentifier getSubjectIdentifier accessMap)))
             accessMap"
    and "reader credentials updatedMap = Inr result"
  shows "identifier \<notin> set (im_keys updatedMap)
       \<and> im_get updatedMap (getSubjectIdentifier identifier)
           = Some ({Control} \<union> (case im_get accessMap (getSubjectIdentifier identifier) of
                                   None \<Rightarrow> {} | Some stored \<Rightarrow> stored))
       \<and> (\<exists>final.
            WebAclAuxiliaryReader_handle reader isAuxiliaryIdentifier getSubjectIdentifier
              credentials accessMap = Inr final
            \<and> (case im_get result (getSubjectIdentifier identifier) of
                  None \<Rightarrow> im_get final identifier = Some Map.empty
                | Some subjectSet \<Rightarrow>
                    (\<exists>aclSet. im_get final identifier = Some aclSet
                       \<and> dom aclSet = dom subjectSet
                       \<and> (\<forall>g permissions p.
                             subjectSet g = Some permissions \<and> aclSet g = Some p \<longrightarrow>
                               p Read = permissions Control \<and> p Append = permissions Control
                               \<and> p Write = permissions Control \<and> p Control = permissions Control
                               \<and> p Create = None \<and> p Delete = None))))"
proof -
  let ?aclMap = "findAcl isAuxiliaryIdentifier getSubjectIdentifier accessMap"
  let ?subject = "getSubjectIdentifier identifier"
  have keys: "map fst ?aclMap = filter isAuxiliaryIdentifier (im_keys accessMap)"
    by (rule findAcl_keys)
  have subjects: "fst ` set (map snd ?aclMap)
       = getSubjectIdentifier ` {a \<in> set (im_keys accessMap). isAuxiliaryIdentifier a}"
    by (rule findAcl_snd)
  have remove: "set (map fst ?aclMap) = {a \<in> set (im_keys accessMap). isAuxiliaryIdentifier a}"
    unfolding keys by auto
  have entry: "(identifier, ?subject, {Control}) \<in> set ?aclMap"
    using assms(2,3) by (auto simp: findAcl_def)
  then have nonempty: "?aclMap \<noteq> []" by auto
  have sub_in: "?subject \<in> fst ` set (map snd ?aclMap)"
    unfolding subjects using assms(2,3) by blast
  have sub_not_acl: "?subject \<notin> set (map fst ?aclMap)"
    unfolding remove using assms(2,3,4) by blast
  have id_not_subject: "identifier \<notin> fst ` set (map snd ?aclMap)"
    unfolding subjects using assms(2,3,4) by force
  have out1: "identifier \<notin> set (im_keys updatedMap)"
    unfolding assms(5) set_im_keys_updateAccessMap
    using id_not_subject assms(2,3) remove by auto
  have modes: "\<Union> (snd ` {e \<in> set (map snd ?aclMap). fst e = ?subject}) = {Control}"
  proof -
    have "(?subject, {Control}) \<in> set (map snd ?aclMap)"
      using entry by force
    moreover have "\<forall>e\<in>set (map snd ?aclMap). snd e = {Control}"
      using findAcl_modes by blast
    ultimately show ?thesis by force
  qed
  have stored: "(if ?subject \<in> set (im_keys accessMap) \<and> ?subject \<notin> set (map fst ?aclMap)
                 then (case im_get accessMap ?subject of None \<Rightarrow> {} | Some s \<Rightarrow> s) else {})
              = (case im_get accessMap ?subject of None \<Rightarrow> {} | Some s \<Rightarrow> s)"
  proof (cases "?subject \<in> set (im_keys accessMap)")
    case True
    with sub_not_acl show ?thesis by simp
  next
    case False
    then have "im_get accessMap ?subject = None"
      by (simp add: im_get_def im_keys_def map_of_eq_None_iff)
    then show ?thesis by simp
  qed
  have out2: "im_get updatedMap ?subject
           = Some ({Control} \<union> (case im_get accessMap ?subject of
                                   None \<Rightarrow> {} | Some stored \<Rightarrow> stored))"
    unfolding assms(5) im_get_updateAccessMap [OF assms(1)]
    using sub_in modes stored by simp
  let ?final = "fold setAclPermission ?aclMap result"
  have h: "WebAclAuxiliaryReader_handle reader isAuxiliaryIdentifier getSubjectIdentifier
              credentials accessMap = Inr ?final"
    unfolding WebAclAuxiliaryReader_handle_unfold
    using nonempty assms(6) [unfolded assms(5)] by simp
  have d: "distinct (map fst ?aclMap)"
    unfolding keys using assms(1) by simp
  have at: "im_get ?final identifier
              = Some (WebAclAuxiliaryReader_updatePermission (im_get result ?subject))"
    using fold_setAclPermission_at [OF entry d] sub_not_acl by simp
  have res: "case im_get result ?subject of
                  None \<Rightarrow> im_get ?final identifier = Some Map.empty
                | Some subjectSet \<Rightarrow>
                    (\<exists>aclSet. im_get ?final identifier = Some aclSet
                       \<and> dom aclSet = dom subjectSet
                       \<and> (\<forall>g permissions p.
                             subjectSet g = Some permissions \<and> aclSet g = Some p \<longrightarrow>
                               p Read = permissions Control \<and> p Append = permissions Control
                               \<and> p Write = permissions Control \<and> p Control = permissions Control
                               \<and> p Create = None \<and> p Delete = None))"
  proof (cases "im_get result ?subject")
    case None
    then show ?thesis using at by (simp add: updatePermission_groups)
  next
    case (Some subjectSet)
    let ?aclSet = "WebAclAuxiliaryReader_updatePermission (Some subjectSet)"
    have "dom ?aclSet = dom subjectSet"
      by (auto simp: updatePermission_groups dom_def split: option.splits)
    moreover have "\<forall>g permissions p.
                             subjectSet g = Some permissions \<and> ?aclSet g = Some p \<longrightarrow>
                               p Read = permissions Control \<and> p Append = permissions Control
                               \<and> p Write = permissions Control \<and> p Control = permissions Control
                               \<and> p Create = None \<and> p Delete = None"
      by (auto simp: updatePermission_groups)
    ultimately show ?thesis using at Some by simp
  qed
  from out1 out2 h res show ?thesis by blast
qed

theorem WebAclAuxiliaryReader_control_witness:
  "\<exists>final.
     WebAclAuxiliaryReader_handle
       (\<lambda>credentials accessMap.
           Inr [(''http://example.com/foo/'',
                 [public \<mapsto> [Read \<mapsto> True, Write \<mapsto> True, Control \<mapsto> True]])])
       isAclIdentifier aclSubject [public \<mapsto> \<lparr>webId = None\<rparr>]
       [(''http://example.com/foo/.acl'', {Read}), (''http://example.com/foo/'', {Write})]
     = Inr final
     \<and> (\<exists>aclSet. im_get final ''http://example.com/foo/.acl'' = Some aclSet
           \<and> dom aclSet = {public}
           \<and> (\<forall>p. aclSet public = Some p \<longrightarrow>
                 p Read = Some True \<and> p Append = Some True \<and> p Write = Some True
                 \<and> p Control = Some True \<and> p Create = None \<and> p Delete = None))"
proof -
  let ?accessMap = "[(''http://example.com/foo/.acl'', {Read}), (''http://example.com/foo/'', {Write})]"
  let ?result = "[(''http://example.com/foo/'',
                 [public \<mapsto> [Read \<mapsto> True, Write \<mapsto> True, Control \<mapsto> True]])]"
  let ?reader = "\<lambda>(credentials :: CredentialSet) (accessMap :: AccessMap). Inr ?result :: thrown + PermissionMap"
  have a1: "isAclIdentifier ''http://example.com/foo/.acl''" by code_simp
  have a2: "\<not> isAclIdentifier ''http://example.com/foo/''" by code_simp
  have s: "aclSubject ''http://example.com/foo/.acl'' = ''http://example.com/foo/''" by code_simp
  have 1: "distinct (im_keys ?accessMap)" by (simp add: im_keys_def)
  have 2: "''http://example.com/foo/.acl'' \<in> set (im_keys ?accessMap)" by (simp add: im_keys_def)
  have 4: "\<forall>a\<in>set (im_keys ?accessMap). isAclIdentifier a \<longrightarrow>
           \<not> (isAclIdentifier (aclSubject a) \<and> aclSubject a \<in> set (im_keys ?accessMap))"
    using a1 a2 s by (simp add: im_keys_def)
  have g: "im_get ?result (aclSubject ''http://example.com/foo/.acl'')
             = Some [public \<mapsto> [Read \<mapsto> True, Write \<mapsto> True, Control \<mapsto> True]]"
    unfolding s by (simp add: im_get_def)
  from WebAclAuxiliaryReader_control [OF 1 2 a1 4 refl, of ?reader "[public \<mapsto> \<lparr>webId = None\<rparr>]" ?result]
  obtain final aclSet where
    h: "WebAclAuxiliaryReader_handle ?reader isAclIdentifier aclSubject
          [public \<mapsto> \<lparr>webId = None\<rparr>] ?accessMap = Inr final"
    and f: "im_get final ''http://example.com/foo/.acl'' = Some aclSet"
    and d: "dom aclSet = dom [public \<mapsto> [Read \<mapsto> True, Write \<mapsto> True, Control \<mapsto> True]]"
    and v: "\<forall>g permissions p.
              [public \<mapsto> [Read \<mapsto> True, Write \<mapsto> True, Control \<mapsto> True]] g = Some permissions
              \<and> aclSet g = Some p \<longrightarrow>
                p Read = permissions Control \<and> p Append = permissions Control
                \<and> p Write = permissions Control \<and> p Control = permissions Control
                \<and> p Create = None \<and> p Delete = None"
    unfolding g by auto
  from d have d': "dom aclSet = {public}" by simp
  have v': "p Read = Some True \<and> p Append = Some True \<and> p Write = Some True
                 \<and> p Control = Some True \<and> p Create = None \<and> p Delete = None"
    if "aclSet public = Some p" for p
    using v [rule_format, of public "[Read \<mapsto> True, Write \<mapsto> True, Control \<mapsto> True]" p] that
    by simp
  from h f d' v' show ?thesis by blast
qed

section \<open>Claims about ParentContainerReader\<close>

text \<open>
  Claim C3. The claim says that an explicit \<^verbatim>\<open>false\<close> of the resource is preserved. The
  code assigns \<^verbatim>\<open>containerPermissions.append && permissions.create !== false\<close>: when the
  container's entry names the group but its \<^verbatim>\<open>append\<close> is undefined, the \<^verbatim>\<open>create\<close> of
  the resource becomes undefined, though it was \<^verbatim>\<open>false\<close>.
\<close>

theorem ParentContainerReader_false_becomes_undefined:
  "(case ParentContainerReader_handle
            (\<lambda>credentials accessMap heap.
                Inr ([(''http://example.com/foo/'', [public \<mapsto> 0]),
                      (''http://example.com/foo/bar'', [public \<mapsto> 1])], heap))
            parentPath [public \<mapsto> \<lparr>webId = None\<rparr>]
            [(''http://example.com/foo/bar'', {Create})]
            \<lparr> permissionOf = (\<lambda>r. if r = 1 then [Create \<mapsto> False] else Map.empty),
              isFrozen = (\<lambda>r. False), nextRef = 2 \<rparr> of
      Inl e \<Rightarrow> False
    | Inr (final, heap') \<Rightarrow>
        (case setAt final ''http://example.com/foo/bar'' public of
           None \<Rightarrow> False
         | Some r \<Rightarrow> r = 1 \<and> permissionOf heap' r Create = None))"
  by code_simp

text \<open>
  Claim C3, amended. Let the result of the inner reader hold no \<^verbatim>\<open>Permission\<close> object
  twice and none that is frozen. Then for every entry of the input that requires
  \<^verbatim>\<open>create\<close> or \<^verbatim>\<open>delete\<close> and every credential group of the result for its parent
  container, the resource's Permission after \<^verbatim>\<open>handle\<close> has: \<^verbatim>\<open>create\<close> true iff the
  container's \<^verbatim>\<open>append\<close> is true and the resource's \<^verbatim>\<open>create\<close> was not \<^verbatim>\<open>false\<close>;
  \<^verbatim>\<open>delete\<close> true iff the resource's \<^verbatim>\<open>write\<close> and the container's \<^verbatim>\<open>write\<close> are
  true and the resource's \<^verbatim>\<open>delete\<close> was not \<^verbatim>\<open>false\<close>; for a \<^verbatim>\<open>create\<close> that was
  \<^verbatim>\<open>false\<close>, \<^verbatim>\<open>create\<close> is \<^verbatim>\<open>false\<close>, or undefined when the container's \<^verbatim>\<open>append\<close>
  is undefined; a \<^verbatim>\<open>delete\<close> that was \<^verbatim>\<open>false\<close> is not true afterwards; the other modes
  are as before. The entries of the inner result for identifiers that require neither
  \<^verbatim>\<open>create\<close> nor \<^verbatim>\<open>delete\<close> are returned with their objects unchanged.
\<close>

theorem ParentContainerReader_create_delete:
  assumes "distinct (im_keys accessMap)"
    and "(identifier, modes) \<in> set accessMap" and "Create \<in> modes \<or> Delete \<in> modes"
    and "reader credentials
           (updateAccessMap (map snd (findParents parentContainer accessMap)) {} accessMap) heap
         = Inr (result, h)"
    and "unshared result h"
  shows "\<exists>final h'.
      ParentContainerReader_handle reader parentContainer credentials accessMap heap
        = Inr (final, h')
      \<and> (\<forall>g cr. setAt result (parentContainer identifier) g = Some cr \<longrightarrow>
            (\<exists>r. setAt final identifier g = Some r
               \<and> (permissionOf h' r Create = Some True \<longleftrightarrow>
                    permissionOf h cr Append = Some True
                    \<and> initialPermission (setAt result identifier) h g Create \<noteq> Some False)
               \<and> (permissionOf h' r Delete = Some True \<longleftrightarrow>
                    initialPermission (setAt result identifier) h g Write = Some True
                    \<and> permissionOf h cr Write = Some True
                    \<and> initialPermission (setAt result identifier) h g Delete \<noteq> Some False)
               \<and> (initialPermission (setAt result identifier) h g Create = Some False \<longrightarrow>
                    permissionOf h' r Create
                      = (if permissionOf h cr Append = None then None else Some False))
               \<and> (initialPermission (setAt result identifier) h g Delete = Some False \<longrightarrow>
                    permissionOf h' r Delete \<noteq> Some True)
               \<and> (\<forall>mode. mode \<noteq> Create \<and> mode \<noteq> Delete \<longrightarrow>
                     permissionOf h' r mode
                       = initialPermission (setAt result identifier) h g mode)))
      \<and> (\<forall>k. \<not> (\<exists>ms. (k, ms) \<in> set accessMap \<and> (Create \<in> ms \<or> Delete \<in> ms)) \<longrightarrow>
            im_get final k = im_get result k
            \<and> (\<forall>g r. setAt result k g = Some r \<longrightarrow> permissionOf h' r = permissionOf h r))"
proof -
  let ?L = "findParents parentContainer accessMap"
  let ?c = "parentContainer identifier"
  from findParents_entry [OF assms(2,3), of parentContainer] obtain ms where
    e: "(identifier, ?c, ms) \<in> set ?L" by blast
  then have ne: "?L \<noteq> []" by auto
  from e obtain L1 L2 where L: "?L = L1 @ (identifier, ?c, ms) # L2"
    by (meson split_list)
  have "distinct (map fst ?L)" using assms(1) by (rule findParents_distinct)
  then have n1: "identifier \<notin> fst ` set L1" and n2: "identifier \<notin> fst ` set L2"
    unfolding L by auto
  have h: "ParentContainerReader_handle reader parentContainer credentials accessMap heap
             = foldE updateChild ?L (result, h)"
    unfolding ParentContainerReader_handle_unfold [OF ne] assms(4) by simp
  from foldE_updateChild_at [OF assms(5) L n1 n2] obtain final h' where
    f: "foldE updateChild ?L (result, h) = Inr (final, h')"
    and v: "\<forall>g cr. setAt result ?c g = Some cr \<longrightarrow>
            (\<exists>r. setAt final identifier g = Some r
               \<and> permissionOf h' r
                   = childPermission (initialPermission (setAt result identifier) h g)
                       (permissionOf h cr))"
    by (elim exE conjE) (rule that)
  obtain final2 h2 where
    f2: "foldE updateChild ?L (result, h) = Inr (final2, h2)"
    and u2: "unshared final2 h2"
    and c2: "onlyCreateDelete h h2"
    and m2: "\<forall>k g r. setAt result k g = Some r \<longrightarrow> setAt final2 k g = Some r"
    and y2: "set (im_keys final2) = set (im_keys result) \<union> fst ` set ?L"
    and s2: "\<forall>k. k \<notin> fst ` set ?L \<longrightarrow>
            im_get final2 k = im_get result k
            \<and> (\<forall>g r. setAt result k g = Some r \<longrightarrow> permissionOf h2 r = permissionOf h r)"
    by (rule foldE_updateChildE [OF assms(5), of ?L])
  from f f2 have same: "final2 = final" "h2 = h'" by simp_all
  have a: "\<forall>g cr. setAt result ?c g = Some cr \<longrightarrow>
            (\<exists>r. setAt final identifier g = Some r
               \<and> (permissionOf h' r Create = Some True \<longleftrightarrow>
                    permissionOf h cr Append = Some True
                    \<and> initialPermission (setAt result identifier) h g Create \<noteq> Some False)
               \<and> (permissionOf h' r Delete = Some True \<longleftrightarrow>
                    initialPermission (setAt result identifier) h g Write = Some True
                    \<and> permissionOf h cr Write = Some True
                    \<and> initialPermission (setAt result identifier) h g Delete \<noteq> Some False)
               \<and> (initialPermission (setAt result identifier) h g Create = Some False \<longrightarrow>
                    permissionOf h' r Create
                      = (if permissionOf h cr Append = None then None else Some False))
               \<and> (initialPermission (setAt result identifier) h g Delete = Some False \<longrightarrow>
                    permissionOf h' r Delete \<noteq> Some True)
               \<and> (\<forall>mode. mode \<noteq> Create \<and> mode \<noteq> Delete \<longrightarrow>
                     permissionOf h' r mode
                       = initialPermission (setAt result identifier) h g mode))"
  proof (intro allI impI)
    fix g cr assume "setAt result ?c g = Some cr"
    with v obtain r where r: "setAt final identifier g = Some r"
      and p: "permissionOf h' r
                = childPermission (initialPermission (setAt result identifier) h g)
                    (permissionOf h cr)"
      by blast
    show "\<exists>r. setAt final identifier g = Some r
               \<and> (permissionOf h' r Create = Some True \<longleftrightarrow>
                    permissionOf h cr Append = Some True
                    \<and> initialPermission (setAt result identifier) h g Create \<noteq> Some False)
               \<and> (permissionOf h' r Delete = Some True \<longleftrightarrow>
                    initialPermission (setAt result identifier) h g Write = Some True
                    \<and> permissionOf h cr Write = Some True
                    \<and> initialPermission (setAt result identifier) h g Delete \<noteq> Some False)
               \<and> (initialPermission (setAt result identifier) h g Create = Some False \<longrightarrow>
                    permissionOf h' r Create
                      = (if permissionOf h cr Append = None then None else Some False))
               \<and> (initialPermission (setAt result identifier) h g Delete = Some False \<longrightarrow>
                    permissionOf h' r Delete \<noteq> Some True)
               \<and> (\<forall>mode. mode \<noteq> Create \<and> mode \<noteq> Delete \<longrightarrow>
                     permissionOf h' r mode
                       = initialPermission (setAt result identifier) h g mode)"
      apply (rule exI [of _ r])
      unfolding p
      using r childPermission_granted childPermission_other
      apply (intro conjI)
           apply simp
          apply (simp add: childPermission_granted(1))
         apply (simp add: childPermission_granted(2))
        apply (simp add: childPermission_granted(3))
       apply (simp add: childPermission_granted(4))
      apply (simp add: childPermission_other)
      done
  qed
  have b: "\<forall>k. \<not> (\<exists>ms. (k, ms) \<in> set accessMap \<and> (Create \<in> ms \<or> Delete \<in> ms)) \<longrightarrow>
            im_get final k = im_get result k
            \<and> (\<forall>g r. setAt result k g = Some r \<longrightarrow> permissionOf h' r = permissionOf h r)"
    using s2 unfolding same findParents_keys by blast
  from h f a b show ?thesis by simp
qed

theorem ParentContainerReader_create_delete_witness:
  "\<exists>final h'.
     ParentContainerReader_handle
       (\<lambda>credentials accessMap heap.
           Inr ([(''http://example.com/foo/'', [public \<mapsto> 0]),
                 (''http://example.com/foo/bar'', [public \<mapsto> 1])], heap))
       parentPath [public \<mapsto> \<lparr>webId = None\<rparr>]
       [(''http://example.com/foo/bar'', {Create, Delete})]
       \<lparr> permissionOf = (\<lambda>r. if r = 0 then [Append \<mapsto> True, Write \<mapsto> True]
                               else if r = 1 then [Write \<mapsto> True] else Map.empty),
         isFrozen = (\<lambda>r. False), nextRef = 2 \<rparr>
     = Inr (final, h')
     \<and> (\<exists>r. setAt final ''http://example.com/foo/bar'' public = Some r
           \<and> permissionOf h' r Create = Some True
           \<and> permissionOf h' r Delete = Some True
           \<and> permissionOf h' r Write = Some True
           \<and> permissionOf h' r Read = None)"
proof -
  let ?accessMap = "[(''http://example.com/foo/bar'', {Create, Delete})]"
  let ?result = "[(''http://example.com/foo/'', [public \<mapsto> 0::nat]),
                  (''http://example.com/foo/bar'', [public \<mapsto> 1])]"
  let ?heap = "\<lparr> permissionOf = (\<lambda>r. if r = 0 then [Append \<mapsto> True, Write \<mapsto> True]
                               else if r = 1 then [Write \<mapsto> True] else Map.empty),
         isFrozen = (\<lambda>r. False), nextRef = 2 \<rparr>"
  let ?reader = "\<lambda>(credentials :: CredentialSet) (accessMap :: AccessMap) (heap :: Heap).
                    Inr (?result, heap) :: thrown + (PermissionRefMap \<times> Heap)"
  have p: "parentPath ''http://example.com/foo/bar'' = ''http://example.com/foo/''"
    by code_simp
  have 1: "distinct (im_keys ?accessMap)" by (simp add: im_keys_def)
  have 2: "(''http://example.com/foo/bar'', {Create, Delete}) \<in> set ?accessMap" by simp
  have 3: "Create \<in> {Create, Delete} \<or> Delete \<in> {Create, Delete}" by simp
  have sp: "setAt ?result ''http://example.com/foo/'' = [public \<mapsto> 0]"
    by (simp add: setAt_def im_get_def)
  have sc: "setAt ?result ''http://example.com/foo/bar'' = [public \<mapsto> 1]"
    by (simp add: setAt_def im_get_def)
  have so: "setAt ?result k = Map.empty"
    if "k \<noteq> ''http://example.com/foo/''" "k \<noteq> ''http://example.com/foo/bar''" for k
    using that by (simp add: setAt_def im_get_def)
  have cases: "setAt ?result k g = Some r \<longleftrightarrow>
      (k = ''http://example.com/foo/'' \<and> g = public \<and> r = 0)
      \<or> (k = ''http://example.com/foo/bar'' \<and> g = public \<and> r = 1)" for k g r
    by (auto simp add: setAt_def im_get_def split: if_splits)
  have 5: "unshared ?result ?heap"
    unfolding unshared_def
  proof (intro conjI allI impI)
    fix k g r assume "setAt ?result k g = Some r"
    then show "r < nextRef ?heap" using cases [of k g r] by auto
  next
    fix k g r assume "setAt ?result k g = Some r"
    then show "\<not> isFrozen ?heap r" by simp
  next
    fix k g k' g'
    assume a: "setAt ?result k g \<noteq> None \<and> setAt ?result k g = setAt ?result k' g'"
    then obtain r where r0: "setAt ?result k g = Some r" by blast
    with a have r: "setAt ?result k g = Some r" "setAt ?result k' g' = Some r" by simp_all
    then show "k = k'" using cases [of k g r] cases [of k' g' r] by auto
  next
    fix k g k' g'
    assume a: "setAt ?result k g \<noteq> None \<and> setAt ?result k g = setAt ?result k' g'"
    then obtain r where r0: "setAt ?result k g = Some r" by blast
    with a have r: "setAt ?result k g = Some r" "setAt ?result k' g' = Some r" by simp_all
    then show "g = g'" using cases [of k g r] cases [of k' g' r] by auto
  qed
  have 4: "?reader [public \<mapsto> \<lparr>webId = None\<rparr>]
             (updateAccessMap (map snd (findParents parentPath ?accessMap)) {} ?accessMap) ?heap
           = Inr (?result, ?heap)" by simp
  from ParentContainerReader_create_delete [of ?accessMap "''http://example.com/foo/bar''"
      "{Create, Delete}" ?reader "[public \<mapsto> \<lparr>webId = None\<rparr>]" parentPath ?heap ?result ?heap,
      OF 1 2 3 4 5]
  obtain final h' where
    h: "ParentContainerReader_handle ?reader parentPath [public \<mapsto> \<lparr>webId = None\<rparr>]
          ?accessMap ?heap = Inr (final, h')"
    and v: "\<forall>g cr. setAt ?result (parentPath ''http://example.com/foo/bar'') g = Some cr \<longrightarrow>
            (\<exists>r. setAt final ''http://example.com/foo/bar'' g = Some r
               \<and> (permissionOf h' r Create = Some True \<longleftrightarrow>
                    permissionOf ?heap cr Append = Some True
                    \<and> initialPermission (setAt ?result ''http://example.com/foo/bar'') ?heap g Create \<noteq> Some False)
               \<and> (permissionOf h' r Delete = Some True \<longleftrightarrow>
                    initialPermission (setAt ?result ''http://example.com/foo/bar'') ?heap g Write = Some True
                    \<and> permissionOf ?heap cr Write = Some True
                    \<and> initialPermission (setAt ?result ''http://example.com/foo/bar'') ?heap g Delete \<noteq> Some False)
               \<and> (initialPermission (setAt ?result ''http://example.com/foo/bar'') ?heap g Create = Some False \<longrightarrow>
                    permissionOf h' r Create
                      = (if permissionOf ?heap cr Append = None then None else Some False))
               \<and> (initialPermission (setAt ?result ''http://example.com/foo/bar'') ?heap g Delete = Some False \<longrightarrow>
                    permissionOf h' r Delete \<noteq> Some True)
               \<and> (\<forall>mode. mode \<noteq> Create \<and> mode \<noteq> Delete \<longrightarrow>
                     permissionOf h' r mode
                       = initialPermission (setAt ?result ''http://example.com/foo/bar'') ?heap g mode))"
    by (elim exE conjE) (rule that)
  from v [rule_format, of public 0] obtain r where
    r: "setAt final ''http://example.com/foo/bar'' public = Some r"
    and c: "permissionOf h' r Create = Some True"
    and d: "permissionOf h' r Delete = Some True"
    and o: "\<forall>mode. mode \<noteq> Create \<and> mode \<noteq> Delete \<longrightarrow>
                     permissionOf h' r mode = [Write \<mapsto> True] mode"
    unfolding p sp sc initialPermission_def by auto
  from o have "permissionOf h' r Write = Some True" "permissionOf h' r Read = None" by simp_all
  with h r c d show ?thesis by blast
qed

section \<open>Claims about the keys of the results\<close>

text \<open>
  Claim C8. The claim says that only the two auxiliary readers return keys that are not
  keys of their input, and that these are auxiliary identifiers.
  \<^verbatim>\<open>ParentContainerReader.handle\<close> returns the map of the inner reader, which it has asked
  about the parent containers too: for a \<^verbatim>\<open>create\<close> on \<^verbatim>\<open>/foo/bar\<close>, with an inner reader
  that reports on \<^verbatim>\<open>/foo/\<close>, the result has the key \<^verbatim>\<open>/foo/\<close>. And the result of
  \<^verbatim>\<open>WebAclAuxiliaryReader.handle\<close> for the ACL identifier \<^verbatim>\<open>/foo.acl\<close> has the key of the
  subject, \<^verbatim>\<open>/foo\<close>, which is not an auxiliary identifier.
\<close>

theorem ParentContainerReader_returns_parent:
  "(case ParentContainerReader_handle
            (\<lambda>credentials accessMap heap.
                Inr ([(''http://example.com/foo/'', [public \<mapsto> 0])], heap))
            parentPath [public \<mapsto> \<lparr>webId = None\<rparr>]
            [(''http://example.com/foo/bar'', {Create})]
            \<lparr> permissionOf = (\<lambda>r. if r = 0 then [Append \<mapsto> True] else Map.empty),
              isFrozen = (\<lambda>r. False), nextRef = 1 \<rparr> of
      Inl e \<Rightarrow> False
    | Inr (final, heap') \<Rightarrow>
        im_keys final = [''http://example.com/foo/'', ''http://example.com/foo/bar'']
        \<and> \<not> set (im_keys final) \<subseteq> set (im_keys [(''http://example.com/foo/bar'', {Create})]))
   \<and> im_keys (updateAccessMap
                (map snd (findParents parentPath [(''http://example.com/foo/bar'', {Create})])) {}
                [(''http://example.com/foo/bar'', {Create})])
       = [''http://example.com/foo/bar'', ''http://example.com/foo/'']
   \<and> (case WebAclAuxiliaryReader_handle (AllStaticReader_handle True)
              isAclIdentifier aclSubject [public \<mapsto> \<lparr>webId = None\<rparr>]
              [(''http://example.com/foo.acl'', {Read})] of
         Inl e \<Rightarrow> False
       | Inr final \<Rightarrow>
           im_keys final = [''http://example.com/foo'', ''http://example.com/foo.acl'']
           \<and> \<not> isAclIdentifier ''http://example.com/foo'')"
  by code_simp

text \<open>
  Claim C8, amended. \<^verbatim>\<open>AllStaticReader\<close> returns, and \<^verbatim>\<open>WebAclReader\<close> when it returns a
  map, a map whose keys are the keys of the input access map. The keys of the map that
  \<^verbatim>\<open>UnionPermissionReader\<close> combines are keys of the maps of its readers. The keys of
  the result of \<^verbatim>\<open>PathBasedReader\<close> are the keys of the results of the readers it has
  matched, each of which it asks about identifiers of the input only. Each of the other
  three readers asks its inner reader once, whatever that reader is, and returns the
  keys of the inner result together with the identifiers it has replaced:
  \<^verbatim>\<open>WebAclAuxiliaryReader\<close> and \<^verbatim>\<open>AuxiliaryReader\<close> ask about the identifiers of the input
  that they do not replace and about the subjects of the auxiliary identifiers they
  replace, and add these auxiliary identifiers; \<^verbatim>\<open>ParentContainerReader\<close> asks about the
  identifiers of the input and about the parent containers of those that require
  \<^verbatim>\<open>create\<close> or \<^verbatim>\<open>delete\<close>, and adds the latter identifiers.
\<close>

theorem reader_result_keys:
  "(\<exists>result. AllStaticReader_handle allow credentials accessMap = Inr result
       \<and> set (im_keys result) = set (im_keys accessMap))
   \<and> (WebAclReader_handle this credentials accessMap = Some (requests, Inr webAclResult) \<longrightarrow>
         set (im_keys webAclResult) = set (im_keys accessMap))
   \<and> set (im_keys (combine results)) \<subseteq> (\<Union>pm\<in>set results. set (im_keys pm))
   \<and> (PathBasedReader_handle pathBased readerOf credentials accessMap = Inr pathResult \<longrightarrow>
         (\<forall>k. k \<in> set (im_keys pathResult) \<longleftrightarrow>
               (\<exists>n matches r. (n, matches) \<in> set (matchReaders pathBased accessMap)
                  \<and> readerOf n credentials matches = Inr r \<and> k \<in> set (im_keys r))))
   \<and> (\<forall>(n, matches)\<in>set (matchReaders pathBased accessMap).
         set (im_keys matches) \<subseteq> set (im_keys accessMap))
   \<and> (WebAclAuxiliaryReader_handle reader isAuxiliaryIdentifier getSubjectIdentifier
          credentials accessMap = Inr aclResult \<longrightarrow>
         (\<exists>inner result.
            reader credentials inner = Inr result
            \<and> set (im_keys inner)
                = (set (im_keys accessMap) - {a. isAuxiliaryIdentifier a})
                  \<union> getSubjectIdentifier ` {a \<in> set (im_keys accessMap). isAuxiliaryIdentifier a}
            \<and> set (im_keys aclResult)
                = set (im_keys result) \<union> {a \<in> set (im_keys accessMap). isAuxiliaryIdentifier a}))
   \<and> (AuxiliaryReader_handle reader isAuxiliaryIdentifier usesOwnAuthorization
          getSubjectIdentifier credentials accessMap = Inr auxResult \<longrightarrow>
         (\<exists>inner result.
            reader credentials inner = Inr result
            \<and> set (im_keys inner)
                = (set (im_keys accessMap)
                     - {a. isAuxiliaryIdentifier a \<and> \<not> usesOwnAuthorization a})
                  \<union> getSubjectIdentifier ` {a \<in> set (im_keys accessMap).
                         isAuxiliaryIdentifier a \<and> \<not> usesOwnAuthorization a}
            \<and> set (im_keys auxResult)
                = set (im_keys result)
                  \<union> {a \<in> set (im_keys accessMap).
                        isAuxiliaryIdentifier a \<and> \<not> usesOwnAuthorization a}))
   \<and> (ParentContainerReader_handle refReader parentContainer credentials accessMap heap
          = Inr (parentResult, heap') \<longrightarrow>
         (\<exists>inner result h.
            refReader credentials inner heap = Inr (result, h)
            \<and> set (im_keys inner)
                = set (im_keys accessMap)
                  \<union> parentContainer ` {i. \<exists>modes. (i, modes) \<in> set accessMap
                                             \<and> (Create \<in> modes \<or> Delete \<in> modes)}
            \<and> set (im_keys parentResult)
                = set (im_keys result)
                  \<union> {i. \<exists>modes. (i, modes) \<in> set accessMap
                            \<and> (Create \<in> modes \<or> Delete \<in> modes)}))"
proof (intro conjI impI)
  show "\<exists>result. AllStaticReader_handle allow credentials accessMap = Inr result
       \<and> set (im_keys result) = set (im_keys accessMap)"
    by (rule AllStaticReader_handle_keys)
next
  assume "WebAclReader_handle this credentials accessMap = Some (requests, Inr webAclResult)"
  from WebAclReader_handle_result [OF this]
  show "set (im_keys webAclResult) = set (im_keys accessMap)" by simp
next
  show "set (im_keys (combine results)) \<subseteq> (\<Union>pm\<in>set results. set (im_keys pm))"
    by (rule set_im_keys_combine)
next
  assume a: "PathBasedReader_handle pathBased readerOf credentials accessMap = Inr pathResult"
  show "\<forall>k. k \<in> set (im_keys pathResult) \<longleftrightarrow>
               (\<exists>n matches r. (n, matches) \<in> set (matchReaders pathBased accessMap)
                  \<and> readerOf n credentials matches = Inr r \<and> k \<in> set (im_keys r))"
    by (intro allI) (rule PathBasedReader_handle_keys_iff [OF a])
next
  show "\<forall>(n, matches)\<in>set (matchReaders pathBased accessMap).
         set (im_keys matches) \<subseteq> set (im_keys accessMap)"
  proof (intro ballI, clarify)
    fix n matches k
    assume "(n, matches) \<in> set (matchReaders pathBased accessMap)" "k \<in> set (im_keys matches)"
    from matchReaders_keys [OF this] show "k \<in> set (im_keys accessMap)" by simp
  qed
next
  assume "WebAclAuxiliaryReader_handle reader isAuxiliaryIdentifier getSubjectIdentifier
          credentials accessMap = Inr aclResult"
  then show "\<exists>inner result.
            reader credentials inner = Inr result
            \<and> set (im_keys inner)
                = (set (im_keys accessMap) - {a. isAuxiliaryIdentifier a})
                  \<union> getSubjectIdentifier ` {a \<in> set (im_keys accessMap). isAuxiliaryIdentifier a}
            \<and> set (im_keys aclResult)
                = set (im_keys result) \<union> {a \<in> set (im_keys accessMap). isAuxiliaryIdentifier a}"
    by (rule WebAclAuxiliaryReader_handle_inner)
next
  assume "AuxiliaryReader_handle reader isAuxiliaryIdentifier usesOwnAuthorization
          getSubjectIdentifier credentials accessMap = Inr auxResult"
  then show "\<exists>inner result.
            reader credentials inner = Inr result
            \<and> set (im_keys inner)
                = (set (im_keys accessMap)
                     - {a. isAuxiliaryIdentifier a \<and> \<not> usesOwnAuthorization a})
                  \<union> getSubjectIdentifier ` {a \<in> set (im_keys accessMap).
                         isAuxiliaryIdentifier a \<and> \<not> usesOwnAuthorization a}
            \<and> set (im_keys auxResult)
                = set (im_keys result)
                  \<union> {a \<in> set (im_keys accessMap).
                        isAuxiliaryIdentifier a \<and> \<not> usesOwnAuthorization a}"
    by (rule AuxiliaryReader_handle_inner)
next
  assume "ParentContainerReader_handle refReader parentContainer credentials accessMap heap
          = Inr (parentResult, heap')"
  then show "\<exists>inner result h.
            refReader credentials inner heap = Inr (result, h)
            \<and> set (im_keys inner)
                = set (im_keys accessMap)
                  \<union> parentContainer ` {i. \<exists>modes. (i, modes) \<in> set accessMap
                                             \<and> (Create \<in> modes \<or> Delete \<in> modes)}
            \<and> set (im_keys parentResult)
                = set (im_keys result)
                  \<union> {i. \<exists>modes. (i, modes) \<in> set accessMap
                            \<and> (Create \<in> modes \<or> Delete \<in> modes)}"
    by (rule ParentContainerReader_handle_inner)
qed

theorem reader_result_keys_witness:
  "(\<exists>rq pm.
      WebAclReader_handle (testReader rootAclStore (\<lambda>_ _ _. True))
        [public \<mapsto> \<lparr>webId = None\<rparr>] [(''http://example.com/foo'', {Read})]
      = Some (rq, Inr pm)
      \<and> set (im_keys pm) = {''http://example.com/foo''})
   \<and> (\<exists>r. PathBasedReader_handle
             (PathBasedReader_new ''http://example.com/foo'' [((\<lambda>relative. True), 0)])
             (\<lambda>n. AllStaticReader_handle True) [public \<mapsto> \<lparr>webId = None\<rparr>]
             [(''http://example.com/foo/bar'', {Read}), (''http://example.com/baz'', {Read})]
           = Inr r
         \<and> set (im_keys r) \<subseteq> {''http://example.com/foo/bar'', ''http://example.com/baz''})
   \<and> (\<exists>final inner result.
         WebAclAuxiliaryReader_handle (AllStaticReader_handle True)
             isAclIdentifier aclSubject [public \<mapsto> \<lparr>webId = None\<rparr>]
             [(''http://example.com/foo.acl'', {Read})]
           = Inr final
         \<and> AllStaticReader_handle True [public \<mapsto> \<lparr>webId = None\<rparr>] inner = Inr result
         \<and> set (im_keys inner) = {''http://example.com/foo''}
         \<and> set (im_keys final) = set (im_keys result) \<union> {''http://example.com/foo.acl''})
   \<and> (\<exists>final inner result.
         AuxiliaryReader_handle
             (readerOn
                \<lparr> permissionOf = (\<lambda>r. if r = 0 then [Append \<mapsto> True] else Map.empty),
                  isFrozen = (\<lambda>r. False), nextRef = 1 \<rparr>
                (ParentContainerReader_handle
                   (\<lambda>credentials accessMap heap.
                       Inr (map (\<lambda>(identifier, modes). (identifier, [public \<mapsto> 0])) accessMap,
                            heap))
                   parentPath))
             isAclIdentifier (\<lambda>identifier. False) aclSubject [public \<mapsto> \<lparr>webId = None\<rparr>]
             [(''http://example.com/foo/bar.acl'', {Create})]
           = Inr final
         \<and> readerOn
                \<lparr> permissionOf = (\<lambda>r. if r = 0 then [Append \<mapsto> True] else Map.empty),
                  isFrozen = (\<lambda>r. False), nextRef = 1 \<rparr>
                (ParentContainerReader_handle
                   (\<lambda>credentials accessMap heap.
                       Inr (map (\<lambda>(identifier, modes). (identifier, [public \<mapsto> 0])) accessMap,
                            heap))
                   parentPath)
                [public \<mapsto> \<lparr>webId = None\<rparr>] inner = Inr result
         \<and> set (im_keys inner) = {''http://example.com/foo/bar''}
         \<and> set (im_keys final) = set (im_keys result) \<union> {''http://example.com/foo/bar.acl''})
   \<and> (\<exists>final h' (inner :: AccessMap) result h.
         ParentContainerReader_handle
               (\<lambda>credentials accessMap heap.
                   Inr (map (\<lambda>(identifier, modes). (identifier, [public \<mapsto> 0])) accessMap, heap))
               parentPath [public \<mapsto> \<lparr>webId = None\<rparr>]
               [(''http://example.com/foo/bar'', {Create})]
               \<lparr> permissionOf = (\<lambda>r. if r = 0 then [Append \<mapsto> True] else Map.empty),
                 isFrozen = (\<lambda>r. False), nextRef = 1 \<rparr>
             = Inr (final, h')
         \<and> Inr (map (\<lambda>(identifier, modes). (identifier, [public \<mapsto> 0])) inner,
                 \<lparr> permissionOf = (\<lambda>r. if r = 0 then [Append \<mapsto> True] else Map.empty),
                   isFrozen = (\<lambda>r. False), nextRef = 1 \<rparr>)
             = (Inr (result, h) :: thrown + (PermissionRefMap \<times> Heap))
         \<and> set (im_keys inner) = {''http://example.com/foo/bar'', ''http://example.com/foo/''}
         \<and> set (im_keys final) = set (im_keys result) \<union> {''http://example.com/foo/bar''})"
proof -
  let ?credentials = "[public \<mapsto> \<lparr>webId = None\<rparr>]"
  let ?webAcl = "testReader rootAclStore (\<lambda>_ _ _. True)"
  let ?foo = "[(''http://example.com/foo'', {Read})] :: AccessMap"
  let ?acl = "[(''http://example.com/foo.acl'', {Read})] :: AccessMap"
  let ?baracl = "[(''http://example.com/foo/bar.acl'', {Create})] :: AccessMap"
  let ?pathBased = "PathBasedReader_new ''http://example.com/foo'' [((\<lambda>relative. True), 0)]"
  let ?two = "[(''http://example.com/foo/bar'', {Read}), (''http://example.com/baz'', {Read})] :: AccessMap"
  let ?create = "[(''http://example.com/foo/bar'', {Create})] :: AccessMap"
  let ?stub = "\<lambda>(credentials :: CredentialSet) (accessMap :: AccessMap) (heap :: Heap).
                  Inr (map (\<lambda>(identifier, modes). (identifier, [public \<mapsto> 0::nat])) accessMap, heap)
                    :: thrown + (PermissionRefMap \<times> Heap)"
  let ?heap = "\<lparr> permissionOf = (\<lambda>r. if r = 0 then [Append \<mapsto> True] else Map.empty),
                 isFrozen = (\<lambda>r. False), nextRef = 1 \<rparr>"
  let ?parent = "readerOn ?heap (ParentContainerReader_handle ?stub parentPath)"
  let ?static = "\<lambda>n::nat. AllStaticReader_handle True"
  have a1: "isAclIdentifier ''http://example.com/foo.acl''" by code_simp
  have s1: "aclSubject ''http://example.com/foo.acl'' = ''http://example.com/foo''" by code_simp
  have a2: "isAclIdentifier ''http://example.com/foo/bar.acl''" by code_simp
  have s2: "aclSubject ''http://example.com/foo/bar.acl'' = ''http://example.com/foo/bar''"
    by code_simp
  have p1: "parentPath ''http://example.com/foo/bar'' = ''http://example.com/foo/''" by code_simp

  have "(case WebAclReader_handle ?webAcl ?credentials ?foo of
           Some (rq, Inr pm) \<Rightarrow> True | _ \<Rightarrow> False)"
    by code_simp
  then obtain rq pm where w: "WebAclReader_handle ?webAcl ?credentials ?foo = Some (rq, Inr pm)"
    by (auto split: option.splits sum.splits) (metis sum.exhaust)
  note t1 = reader_result_keys [where credentials = ?credentials and accessMap = ?foo and this = ?webAcl
                  and requests = rq and webAclResult = pm]
  from t1 [THEN conjunct2, THEN conjunct1, THEN mp, OF w]
  have 1: "set (im_keys pm) = {''http://example.com/foo''}"
    by (simp add: im_keys_def)

  have "(case PathBasedReader_handle ?pathBased ?static ?credentials ?two of
           Inr r \<Rightarrow> True | _ \<Rightarrow> False)"
    by code_simp
  then obtain r2 where p: "PathBasedReader_handle ?pathBased ?static ?credentials ?two = Inr r2"
    by (auto split: sum.splits)
  note t2 = reader_result_keys [where credentials = ?credentials and accessMap = ?two and pathBased = ?pathBased
                  and readerOf = ?static and pathResult = r2]
  note t2a = t2 [THEN conjunct2, THEN conjunct2, THEN conjunct2, THEN conjunct1, THEN mp, OF p]
  note t2b = t2 [THEN conjunct2, THEN conjunct2, THEN conjunct2, THEN conjunct2, THEN conjunct1]
  have 2: "set (im_keys r2) \<subseteq> {''http://example.com/foo/bar'', ''http://example.com/baz''}"
  proof
    fix k assume "k \<in> set (im_keys r2)"
    with t2a obtain n matches r where
      m: "(n, matches) \<in> set (matchReaders ?pathBased ?two)"
      and r: "AllStaticReader_handle True ?credentials matches = Inr r"
      and k: "k \<in> set (im_keys r)" by blast
    from AllStaticReader_handle_keys [of True ?credentials matches] r
    have "set (im_keys r) = set (im_keys matches)" by simp
    with k have "k \<in> set (im_keys matches)" by simp
    with t2b m have "k \<in> set (im_keys ?two)" by blast
    then show "k \<in> {''http://example.com/foo/bar'', ''http://example.com/baz''}"
      by (simp add: im_keys_def)
  qed

  have "(case WebAclAuxiliaryReader_handle (AllStaticReader_handle True)
             isAclIdentifier aclSubject ?credentials ?acl of
           Inr r \<Rightarrow> True | _ \<Rightarrow> False)"
    by code_simp
  then obtain r3 where
    a: "WebAclAuxiliaryReader_handle (AllStaticReader_handle True)
             isAclIdentifier aclSubject ?credentials ?acl = Inr r3"
    by (auto split: sum.splits)
  note t3 = reader_result_keys [where credentials = ?credentials and accessMap = ?acl
                  and reader = "AllStaticReader_handle True"
                  and isAuxiliaryIdentifier = isAclIdentifier
                  and getSubjectIdentifier = aclSubject and aclResult = r3]
  from t3 [THEN conjunct2, THEN conjunct2, THEN conjunct2, THEN conjunct2, THEN conjunct2,
           THEN conjunct1, THEN mp, OF a]
  obtain inner3 result3 where
    i3: "AllStaticReader_handle True ?credentials inner3 = Inr result3"
    and k3: "set (im_keys inner3)
               = (set (im_keys ?acl) - {a. isAclIdentifier a})
                 \<union> aclSubject ` {a \<in> set (im_keys ?acl). isAclIdentifier a}"
    and f3: "set (im_keys r3)
               = set (im_keys result3) \<union> {a \<in> set (im_keys ?acl). isAclIdentifier a}"
    by blast
  have e3: "{a \<in> set (im_keys ?acl). isAclIdentifier a} = {''http://example.com/foo.acl''}"
    using a1 by (auto simp: im_keys_def)
  have d3: "set (im_keys ?acl) - {a. isAclIdentifier a} = {}"
    using a1 by (auto simp: im_keys_def)
  from k3 have k3': "set (im_keys inner3) = {''http://example.com/foo''}"
    unfolding e3 d3 using s1 by simp
  from f3 have f3': "set (im_keys r3) = set (im_keys result3) \<union> {''http://example.com/foo.acl''}"
    unfolding e3 .
  from a i3 k3' f3' have 3: "\<exists>final inner result.
         WebAclAuxiliaryReader_handle (AllStaticReader_handle True)
             isAclIdentifier aclSubject ?credentials ?acl = Inr final
         \<and> AllStaticReader_handle True ?credentials inner = Inr result
         \<and> set (im_keys inner) = {''http://example.com/foo''}
         \<and> set (im_keys final) = set (im_keys result) \<union> {''http://example.com/foo.acl''}"
    by blast

  have "(case AuxiliaryReader_handle ?parent isAclIdentifier (\<lambda>identifier. False) aclSubject
             ?credentials ?baracl of
           Inr r \<Rightarrow> True | _ \<Rightarrow> False)"
    by code_simp
  then obtain r4 where
    x: "AuxiliaryReader_handle ?parent isAclIdentifier (\<lambda>identifier. False) aclSubject
             ?credentials ?baracl = Inr r4"
    by (auto split: sum.splits)
  note t4 = reader_result_keys [where credentials = ?credentials and accessMap = ?baracl
                  and reader = ?parent and isAuxiliaryIdentifier = isAclIdentifier
                  and usesOwnAuthorization = "\<lambda>identifier. False"
                  and getSubjectIdentifier = aclSubject and auxResult = r4]
  from t4 [THEN conjunct2, THEN conjunct2, THEN conjunct2, THEN conjunct2, THEN conjunct2,
           THEN conjunct2, THEN conjunct1, THEN mp, OF x]
  obtain inner4 result4 where
    i4: "?parent ?credentials inner4 = Inr result4"
    and k4: "set (im_keys inner4)
               = (set (im_keys ?baracl) - {a. isAclIdentifier a \<and> \<not> False})
                 \<union> aclSubject ` {a \<in> set (im_keys ?baracl). isAclIdentifier a \<and> \<not> False}"
    and f4: "set (im_keys r4)
               = set (im_keys result4)
                 \<union> {a \<in> set (im_keys ?baracl). isAclIdentifier a \<and> \<not> False}"
    by blast
  have e4: "{a \<in> set (im_keys ?baracl). isAclIdentifier a \<and> \<not> False}
              = {''http://example.com/foo/bar.acl''}"
    using a2 by (auto simp: im_keys_def)
  have d4: "set (im_keys ?baracl) - {a. isAclIdentifier a \<and> \<not> False} = {}"
    using a2 by (auto simp: im_keys_def)
  from k4 have k4': "set (im_keys inner4) = {''http://example.com/foo/bar''}"
    unfolding e4 d4 using s2 by simp
  from f4 have f4': "set (im_keys r4)
                       = set (im_keys result4) \<union> {''http://example.com/foo/bar.acl''}"
    unfolding e4 .
  from x i4 k4' f4' have 4: "\<exists>final inner result.
         AuxiliaryReader_handle ?parent isAclIdentifier (\<lambda>identifier. False) aclSubject
             ?credentials ?baracl = Inr final
         \<and> ?parent ?credentials inner = Inr result
         \<and> set (im_keys inner) = {''http://example.com/foo/bar''}
         \<and> set (im_keys final) = set (im_keys result) \<union> {''http://example.com/foo/bar.acl''}"
    by blast

  have "(case ParentContainerReader_handle ?stub parentPath ?credentials ?create ?heap of
           Inr (r, h) \<Rightarrow> True | _ \<Rightarrow> False)"
    by code_simp
  then obtain r5 h5 where
    c: "ParentContainerReader_handle ?stub parentPath ?credentials ?create ?heap = Inr (r5, h5)"
    by (auto split: sum.splits)
  note t5 = reader_result_keys [where credentials = ?credentials and accessMap = ?create
                  and refReader = ?stub and parentContainer = parentPath and heap = ?heap
                  and parentResult = r5 and heap' = h5]
  from t5 [THEN conjunct2, THEN conjunct2, THEN conjunct2, THEN conjunct2, THEN conjunct2,
           THEN conjunct2, THEN conjunct2, THEN mp, OF c]
  obtain inner5 result5 h where
    i5: "?stub ?credentials inner5 ?heap = Inr (result5, h)"
    and k5: "set (im_keys inner5)
               = set (im_keys ?create)
                 \<union> parentPath ` {i. \<exists>modes. (i, modes) \<in> set ?create
                                       \<and> (Create \<in> modes \<or> Delete \<in> modes)}"
    and f5: "set (im_keys r5)
               = set (im_keys result5)
                 \<union> {i. \<exists>modes. (i, modes) \<in> set ?create \<and> (Create \<in> modes \<or> Delete \<in> modes)}"
    by blast
  have e5: "{i. \<exists>modes. (i, modes) \<in> set ?create \<and> (Create \<in> modes \<or> Delete \<in> modes)}
              = {''http://example.com/foo/bar''}"
    by auto
  from k5 have k5': "set (im_keys inner5)
                       = {''http://example.com/foo/bar'', ''http://example.com/foo/''}"
    unfolding e5 using p1 by (auto simp: im_keys_def)
  from f5 have f5': "set (im_keys r5) = set (im_keys result5) \<union> {''http://example.com/foo/bar''}"
    unfolding e5 .
  from c i5 k5' f5' have 5: "\<exists>final h' inner result h.
         ParentContainerReader_handle ?stub parentPath ?credentials ?create ?heap = Inr (final, h')
         \<and> ?stub ?credentials inner ?heap = Inr (result, h)
         \<and> set (im_keys inner) = {''http://example.com/foo/bar'', ''http://example.com/foo/''}
         \<and> set (im_keys final) = set (im_keys result) \<union> {''http://example.com/foo/bar''}"
    by blast

  from w 1 have w1: "\<exists>rq pm. WebAclReader_handle ?webAcl ?credentials ?foo = Some (rq, Inr pm)
      \<and> set (im_keys pm) = {''http://example.com/foo''}" by blast
  from p 2 have w2: "\<exists>r. PathBasedReader_handle ?pathBased ?static ?credentials ?two = Inr r
         \<and> set (im_keys r) \<subseteq> {''http://example.com/foo/bar'', ''http://example.com/baz''}"
    by blast
  show ?thesis
    apply (intro conjI)
        apply (rule w1)
       apply (rule w2)
      apply (rule 3)
     apply (rule 4)
    apply (rule 5)
    done
qed

section \<open>Claims about PathBasedReader\<close>

text \<open>
  Claim C10. The claim says that no identifier outside the base URL is in the result.
  \<^verbatim>\<open>PathBasedReader.handle\<close> returns every entry of the maps of its readers, and a reader
  can report on an identifier it was not asked about: with the base
  \<^verbatim>\<open>http://example.com/foo/\<close> and a \<^verbatim>\<open>ParentContainerReader\<close> for every path, a \<^verbatim>\<open>delete\<close>
  on \<^verbatim>\<open>http://example.com/foo/\<close> gives a result with an entry for the parent container
  \<^verbatim>\<open>http://example.com/\<close>, which is outside the base URL.
\<close>

theorem PathBasedReader_reports_outside_base:
  "baseUrl (PathBasedReader_new ''http://example.com/foo'' [((\<lambda>relative. True), 0)])
     = ''http://example.com/foo/''
   \<and> \<not> prefix ''http://example.com/foo/'' ''http://example.com/''
   \<and> (case PathBasedReader_handle
              (PathBasedReader_new ''http://example.com/foo'' [((\<lambda>relative. True), 0)])
              (\<lambda>n. readerOn
                      \<lparr> permissionOf = (\<lambda>r. [Write \<mapsto> True]), isFrozen = (\<lambda>r. False),
                        nextRef = 2 \<rparr>
                      (ParentContainerReader_handle
                         (\<lambda>credentials accessMap heap.
                             Inr ([(''http://example.com/'', [public \<mapsto> 0]),
                                   (''http://example.com/foo/'', [public \<mapsto> 1])], heap))
                         parentPath))
              [public \<mapsto> \<lparr>webId = None\<rparr>]
              [(''http://example.com/foo/'', {Delete})] of
         Inl e \<Rightarrow> False
       | Inr result \<Rightarrow>
           im_keys result = [''http://example.com/'', ''http://example.com/foo/'']
           \<and> permissionAt result ''http://example.com/'' public Write = Some True)"
  by code_simp

text \<open>
  Claim C10, amended. Whatever the regular expressions, \<^verbatim>\<open>findReader\<close> finds no reader for
  an identifier whose path does not start with the base URL (with its trailing slash),
  and every identifier of the access maps that \<^verbatim>\<open>matchReaders\<close> gives to the readers is an
  identifier of the input whose path starts with the base URL. When the readers report
  only on identifiers of the access map they are given, every key of the result of
  \<^verbatim>\<open>handle\<close> is a key of the input whose path starts with the base URL.
\<close>

theorem PathBasedReader_base_url:
  "(\<not> prefix (ensureTrailingSlash base) identifier \<longrightarrow>
      findReader (PathBasedReader_new base entries) identifier = None)
   \<and> (\<forall>(n, matches)\<in>set (matchReaders (PathBasedReader_new base entries) accessMap).
         \<forall>k\<in>set (im_keys matches).
           k \<in> set (im_keys accessMap) \<and> prefix (ensureTrailingSlash base) k)
   \<and> ((\<forall>n. reportsOnInput (readerOf n))
        \<and> PathBasedReader_handle (PathBasedReader_new base entries) readerOf credentials accessMap
            = Inr result \<longrightarrow>
         (\<forall>k\<in>set (im_keys result).
            k \<in> set (im_keys accessMap) \<and> prefix (ensureTrailingSlash base) k))"
proof (intro conjI impI)
  assume "\<not> prefix (ensureTrailingSlash base) identifier"
  then show "findReader (PathBasedReader_new base entries) identifier = None"
    by (simp add: findReader_def PathBasedReader_new_def)
next
  have b: "baseUrl (PathBasedReader_new base entries) = ensureTrailingSlash base"
    by (simp add: PathBasedReader_new_def)
  show "\<forall>(n, matches)\<in>set (matchReaders (PathBasedReader_new base entries) accessMap).
         \<forall>k\<in>set (im_keys matches).
           k \<in> set (im_keys accessMap) \<and> prefix (ensureTrailingSlash base) k"
  proof (intro ballI, clarify)
    fix n matches k
    assume "(n, matches) \<in> set (matchReaders (PathBasedReader_new base entries) accessMap)"
      and "k \<in> set (im_keys matches)"
    from matchReaders_keys [OF this] findReader_prefix [of "PathBasedReader_new base entries" k n]
    show "k \<in> set (im_keys accessMap) \<and> prefix (ensureTrailingSlash base) k"
      unfolding b by simp
  qed
next
  have b: "baseUrl (PathBasedReader_new base entries) = ensureTrailingSlash base"
    by (simp add: PathBasedReader_new_def)
  assume a: "(\<forall>n. reportsOnInput (readerOf n))
        \<and> PathBasedReader_handle (PathBasedReader_new base entries) readerOf credentials accessMap
            = Inr result"
  show "\<forall>k\<in>set (im_keys result).
            k \<in> set (im_keys accessMap) \<and> prefix (ensureTrailingSlash base) k"
  proof
    fix k assume "k \<in> set (im_keys result)"
    from PathBasedReader_handle_within [OF a [THEN conjunct1] a [THEN conjunct2] this]
    show "k \<in> set (im_keys accessMap) \<and> prefix (ensureTrailingSlash base) k"
      unfolding b .
  qed
qed

theorem PathBasedReader_base_url_witness:
  "findReader (PathBasedReader_new ''http://example.com/foo'' [((\<lambda>relative. True), 0)])
      ''http://example.com/baz'' = None
   \<and> (\<exists>result.
        PathBasedReader_handle
          (PathBasedReader_new ''http://example.com/foo'' [((\<lambda>relative. True), 0)])
          (\<lambda>n. AllStaticReader_handle True) [public \<mapsto> \<lparr>webId = None\<rparr>]
          [(''http://example.com/foo/bar'', {Read}), (''http://example.com/baz'', {Read})]
        = Inr result
        \<and> ''http://example.com/baz'' \<notin> set (im_keys result)
        \<and> (\<forall>k\<in>set (im_keys result). prefix ''http://example.com/foo/'' k))
   \<and> list_all (\<lambda>(n, matches). list_all (prefix ''http://example.com/foo/'') (im_keys matches))
        (matchReaders
           (PathBasedReader_new ''http://example.com/foo'' [((\<lambda>relative. True), 0)])
           [(''http://example.com/foo/bar'', {Read}), (''http://example.com/baz'', {Read})])"
proof -
  let ?credentials = "[public \<mapsto> \<lparr>webId = None\<rparr>]"
  let ?entries = "[((\<lambda>relative. True), 0)] :: (RegExp \<times> nat) list"
  let ?pathBased = "PathBasedReader_new ''http://example.com/foo'' ?entries"
  let ?two = "[(''http://example.com/foo/bar'', {Read}), (''http://example.com/baz'', {Read})] :: AccessMap"
  let ?readerOf = "\<lambda>n::nat. AllStaticReader_handle True"
  have e: "ensureTrailingSlash ''http://example.com/foo'' = ''http://example.com/foo/''"
    by code_simp
  have n: "\<not> prefix ''http://example.com/foo/'' ''http://example.com/baz''" by code_simp
  have statics: "\<forall>n::nat. reportsOnInput (?readerOf n)"
    by (simp add: AllStaticReader_reportsOnInput)
  have "(case PathBasedReader_handle ?pathBased ?readerOf ?credentials ?two of
           Inr r \<Rightarrow> True | _ \<Rightarrow> False)"
    by code_simp
  then obtain result where
    p: "PathBasedReader_handle ?pathBased ?readerOf ?credentials ?two = Inr result"
    by (auto split: sum.splits)
  note t = PathBasedReader_base_url [of "''http://example.com/foo''" "''http://example.com/baz''"
      ?entries ?two ?readerOf ?credentials result, unfolded e]
  from t [THEN conjunct1] n
  have 1: "findReader ?pathBased ''http://example.com/baz'' = None" by simp
  from t [THEN conjunct2, THEN conjunct1]
  have 2: "list_all (\<lambda>(n, matches). list_all (prefix ''http://example.com/foo/'') (im_keys matches))
             (matchReaders ?pathBased ?two)"
    unfolding list_all_iff by fast
  from t [THEN conjunct2, THEN conjunct2, THEN mp, OF conjI, OF statics p]
  have 3: "\<forall>k\<in>set (im_keys result). prefix ''http://example.com/foo/'' k" by simp
  with n have 4: "''http://example.com/baz'' \<notin> set (im_keys result)" by blast
  from 1 2 3 4 p show ?thesis by blast
qed

section \<open>Further properties of the extractor and the readers\<close>

lemma update_new: "k \<notin> fst ` set m \<Longrightarrow> AList.update k v m = m @ [(k, v)]"
  by (induction m) auto

lemma addAccessModes_new:
  "k \<notin> fst ` set m \<Longrightarrow> addAccessModes k ms m = m @ [(k, ms)]"
proof -
  assume a: "k \<notin> fst ` set m"
  then have "map_of m k = None" by (simp add: map_of_eq_None_iff)
  with a show ?thesis by (simp add: addAccessModes_def im_get_def im_set_def update_new)
qed

lemma addIntermediateModes_end:
  "addIntermediateModes h p (length m) m = Some m"
  by (subst addIntermediateModes.simps) simp

lemma addIntermediateModes_chain:
  assumes "reachesExisting h p n k" and "Create \<in> ms"
    and "\<forall>x\<in>fst ` set pre. length k < length x"
  shows "addIntermediateModes h p (length pre) (pre @ [(k, ms)])
           = Some (pre @ (k, ms) # map (\<lambda>c. (c, {Create})) (missingContainers h p n k))"
  using assms
proof (induction n arbitrary: pre k ms)
  case 0
  then show ?case by simp
next
  case (Suc n)
  show ?case
  proof (cases "h (p k)")
    case True
    have "addIntermediateModes h p (length pre) (pre @ [(k, ms)])
            = addIntermediateModes h p (Suc (length pre)) (pre @ [(k, ms)])"
      by (subst addIntermediateModes.simps) (simp add: True)
    also have "\<dots> = Some (pre @ [(k, ms)])"
      using addIntermediateModes_end [of h p "pre @ [(k, ms)]"] by simp
    finally show ?thesis by (simp add: True)
  next
    case False
    with Suc.prems(1) have shorter: "length (p k) < length k"
      and rest: "reachesExisting h p n (p k)" by simp_all
    have new: "p k \<notin> fst ` set (pre @ [(k, ms)])"
      using shorter Suc.prems(3) by auto
    have longer: "\<forall>x\<in>fst ` set (pre @ [(k, ms)]). length (p k) < length x"
      using shorter Suc.prems(3) by auto
    have "addIntermediateModes h p (length pre) (pre @ [(k, ms)])
            = addIntermediateModes h p (Suc (length pre))
                (addAccessModes (p k) {Create} (pre @ [(k, ms)]))"
      by (subst addIntermediateModes.simps) (simp add: False Suc.prems(2))
    also have "\<dots> = addIntermediateModes h p (length (pre @ [(k, ms)]))
                        ((pre @ [(k, ms)]) @ [(p k, {Create})])"
      unfolding addAccessModes_new [OF new] by simp
    also have "\<dots> = Some ((pre @ [(k, ms)]) @ (p k, {Create})
                               # map (\<lambda>c. (c, {Create})) (missingContainers h p n (p k)))"
      by (rule Suc.IH [OF rest _ longer]) simp
    finally show ?thesis by (simp add: False)
  qed
qed

lemma addIntermediateModes_no_create:
  "Create \<notin> ms \<Longrightarrow> addIntermediateModes h p 0 [(k, ms)] = Some [(k, ms)]"
  using addIntermediateModes_end [of h p "[(k, ms)]"]
  by (subst addIntermediateModes.simps) simp

text \<open>
  \<^verbatim>\<open>IntermediateModesExtractor.handle\<close> on a source map with one entry, under the contract
  of the identifier strategy: when the entry requires \<^verbatim>\<open>create\<close>, the result is the entry
  followed by one entry with the mode \<^verbatim>\<open>create\<close> for every container above it that does
  not exist, nearest first, up to and without the first container that exists; when the
  entry does not require \<^verbatim>\<open>create\<close>, the result is the source map.
\<close>

theorem IntermediateModesExtractor_single_target:
  "(Create \<in> modes \<and> reachesExisting hasResource parentContainer n identifier \<longrightarrow>
      IntermediateModesExtractor_handle hasResource parentContainer (Inr [(identifier, modes)])
        = Some (Inr ((identifier, modes)
                     # map (\<lambda>container. (container, {Create}))
                         (missingContainers hasResource parentContainer n identifier))))
   \<and> (Create \<notin> modes \<longrightarrow>
        IntermediateModesExtractor_handle hasResource parentContainer (Inr [(identifier, modes)])
          = Some (Inr [(identifier, modes)]))"
proof (intro conjI impI)
  assume a: "Create \<in> modes \<and> reachesExisting hasResource parentContainer n identifier"
  from addIntermediateModes_chain [OF a [THEN conjunct2] a [THEN conjunct1], of "[]"]
  show "IntermediateModesExtractor_handle hasResource parentContainer (Inr [(identifier, modes)])
        = Some (Inr ((identifier, modes)
                     # map (\<lambda>container. (container, {Create}))
                         (missingContainers hasResource parentContainer n identifier)))"
    by (simp add: IntermediateModesExtractor_handle_def)
next
  assume "Create \<notin> modes"
  then show "IntermediateModesExtractor_handle hasResource parentContainer (Inr [(identifier, modes)])
          = Some (Inr [(identifier, modes)])"
    by (simp add: IntermediateModesExtractor_handle_def addIntermediateModes_no_create)
qed

theorem IntermediateModesExtractor_single_target_witness:
  "IntermediateModesExtractor_handle (\<lambda>p. p = ''http://example.com/'') parentPath
     (Inr [(''http://example.com/a/b/c/'', {Create, Write})])
   = Some (Inr [(''http://example.com/a/b/c/'', {Create, Write}),
                (''http://example.com/a/b/'', {Create}),
                (''http://example.com/a/'', {Create})])
   \<and> IntermediateModesExtractor_handle (\<lambda>p. p = ''http://example.com/'') parentPath
       (Inr [(''http://example.com/a/b/c/'', {Read})])
     = Some (Inr [(''http://example.com/a/b/c/'', {Read})])"
proof -
  let ?h = "\<lambda>p. p = ''http://example.com/''"
  have r: "reachesExisting ?h parentPath 3 ''http://example.com/a/b/c/''" by code_simp
  have m: "missingContainers ?h parentPath 3 ''http://example.com/a/b/c/''
             = [''http://example.com/a/b/'', ''http://example.com/a/'']" by code_simp
  have c: "Create \<in> {Create, Write}" "Create \<notin> {Read}" by simp_all
  from IntermediateModesExtractor_single_target
         [of "{Create, Write}" ?h parentPath 3 "''http://example.com/a/b/c/''",
          THEN conjunct1, THEN mp, OF conjI, OF c(1) r]
       IntermediateModesExtractor_single_target
         [of "{Read}" ?h parentPath 3 "''http://example.com/a/b/c/''",
          THEN conjunct2, THEN mp, OF c(2)]
  show ?thesis unfolding m by simp
qed

lemma im_get_fold_im_set_const:
  "im_get (fold (\<lambda>(identifier, v). im_set identifier v) (map (\<lambda>i. (i, c)) keys) m) k
     = (if k \<in> set keys then Some c else im_get m k)"
  by (induction keys arbitrary: m) (auto simp: im_get_im_set)

lemma mapCredentials_dom: "dom (mapCredentials allow credentials) = dom credentials"
  by (auto simp: mapCredentials_def split: option.splits)

text \<open>
  \<^verbatim>\<open>AllStaticReader.handle\<close> returns a map with the keys of the access map. Every entry
  has a Permission for exactly the credential groups of the credentials, in which
  \<^verbatim>\<open>read\<close>, \<^verbatim>\<open>write\<close>, \<^verbatim>\<open>append\<close>, \<^verbatim>\<open>create\<close> and \<^verbatim>\<open>delete\<close> have the value the reader
  was built with and \<^verbatim>\<open>control\<close> is undefined.
\<close>

theorem AllStaticReader_handle_permissions:
  "\<exists>result.
      AllStaticReader_handle allow credentials accessMap = Inr result
      \<and> set (im_keys result) = set (im_keys accessMap)
      \<and> (\<forall>identifier\<in>set (im_keys accessMap).
            \<exists>permissionSet.
              im_get result identifier = Some permissionSet
              \<and> dom permissionSet = dom credentials
              \<and> (\<forall>g permissions.
                    permissionSet g = Some permissions \<longrightarrow>
                      permissions Read = Some allow \<and> permissions Write = Some allow
                      \<and> permissions Append = Some allow \<and> permissions Create = Some allow
                      \<and> permissions Delete = Some allow \<and> permissions Control = None))"
proof -
  let ?result = "IdentifierMap_of
            (map (\<lambda>identifier. (identifier, mapCredentials allow credentials)) (im_keys accessMap))"
  have h: "AllStaticReader_handle allow credentials accessMap = Inr ?result"
    by (simp add: AllStaticReader_handle_def)
  have k: "set (im_keys ?result) = set (im_keys accessMap)"
    using AllStaticReader_handle_keys [of allow credentials accessMap] unfolding h by simp
  have g: "im_get ?result i = Some (mapCredentials allow credentials)"
    if "i \<in> set (im_keys accessMap)" for i
    using that unfolding IdentifierMap_of_def im_get_fold_im_set_const by simp
  have p: "permissions Read = Some allow \<and> permissions Write = Some allow
           \<and> permissions Append = Some allow \<and> permissions Create = Some allow
           \<and> permissions Delete = Some allow \<and> permissions Control = None"
    if "mapCredentials allow credentials g = Some permissions" for g permissions
    using that
    by (auto simp: mapCredentials_def AllStaticReader_permissions_def split: option.splits)
  from h k g p mapCredentials_dom [of allow credentials] show ?thesis by blast
qed

theorem AllStaticReader_handle_permissions_witness:
  "\<exists>result permissionSet permissions.
      AllStaticReader_handle False [public \<mapsto> \<lparr>webId = None\<rparr>]
        [(''http://example.com/foo'', {Read})] = Inr result
      \<and> im_keys result = [''http://example.com/foo'']
      \<and> im_get result ''http://example.com/foo'' = Some permissionSet
      \<and> dom permissionSet = {public}
      \<and> permissionSet public = Some permissions
      \<and> permissions Read = Some False \<and> permissions Create = Some False
      \<and> permissions Control = None"
proof -
  let ?credentials = "[public \<mapsto> \<lparr>webId = None\<rparr>]"
  let ?accessMap = "[(''http://example.com/foo'', {Read})] :: AccessMap"
  from AllStaticReader_handle_permissions [of False ?credentials ?accessMap]
  obtain result permissionSet where
    h: "AllStaticReader_handle False ?credentials ?accessMap = Inr result"
    and g: "im_get result ''http://example.com/foo'' = Some permissionSet"
    and d: "dom permissionSet = {public}"
    and p: "\<forall>g permissions.
                    permissionSet g = Some permissions \<longrightarrow>
                      permissions Read = Some False \<and> permissions Write = Some False
                      \<and> permissions Append = Some False \<and> permissions Create = Some False
                      \<and> permissions Delete = Some False \<and> permissions Control = None"
    by (auto simp: im_keys_def)
  from d obtain permissions where s: "permissionSet public = Some permissions" by auto
  have "(case AllStaticReader_handle False ?credentials ?accessMap of
           Inr r \<Rightarrow> im_keys r = [''http://example.com/foo''] | _ \<Rightarrow> False)"
    by code_simp
  with h have k: "im_keys result = [''http://example.com/foo'']" by simp
  from p s have "permissions Read = Some False \<and> permissions Create = Some False
      \<and> permissions Control = None" by blast
  with h k g d s show ?thesis by blast
qed

lemma fold_setSubject_other:
  "k \<notin> fst ` set L \<Longrightarrow>
   im_get (fold (\<lambda>(identifier, subject, modes) result.
                   im_set identifier (f (im_get result subject)) result) L result) k
     = im_get result k"
  by (induction L arbitrary: result) (auto simp: im_get_im_set)

lemma fold_setSubject_at:
  assumes "(i, subject, modes) \<in> set L" and "distinct (map fst L)"
    and "subject \<notin> fst ` set L"
  shows "im_get (fold (\<lambda>(identifier, subject, modes) result.
                   im_set identifier (f (im_get result subject)) result) L result) i
           = Some (f (im_get result subject))"
proof -
  let ?step = "\<lambda>(identifier, subject, modes) result.
                   im_set identifier (f (im_get result subject)) result"
  from assms(1) obtain L1 L2 where L: "L = L1 @ (i, subject, modes) # L2"
    by (meson split_list)
  from assms(2) have n1: "i \<notin> fst ` set L1" and n2: "i \<notin> fst ` set L2"
    unfolding L by auto
  from assms(3) have s1: "subject \<notin> fst ` set L1" unfolding L by auto
  have "im_get (fold ?step L result) i
          = im_get (?step (i, subject, modes) (fold ?step L1 result)) i"
    unfolding L by (simp add: fold_setSubject_other [OF n2])
  also have "\<dots> = Some (f (im_get (fold ?step L1 result) subject))"
    by (simp add: im_get_im_set)
  also have "im_get (fold ?step L1 result) subject = im_get result subject"
    by (rule fold_setSubject_other [OF s1])
  finally show ?thesis .
qed

lemma findAuxiliary_map_fst:
  "map fst (findAuxiliary isAux usesOwn getSubject accessMap)
     = map fst (filter (\<lambda>(identifier, modes). isAux identifier \<and> \<not> usesOwn identifier) accessMap)"
  by (simp add: findAuxiliary_def comp_def case_prod_unfold)

lemma findAuxiliary_distinct:
  "distinct (im_keys accessMap) \<Longrightarrow> distinct (map fst (findAuxiliary isAux usesOwn getSubject accessMap))"
  unfolding findAuxiliary_map_fst im_keys_def by (rule distinct_map_filter)

lemma AuxiliaryReader_handle_unfold:
  "findAuxiliary isAux usesOwn getSubject accessMap \<noteq> [] \<Longrightarrow>
   reader credentials
     (updateAccessMap (map snd (findAuxiliary isAux usesOwn getSubject accessMap))
        (set (map fst (findAuxiliary isAux usesOwn getSubject accessMap))) accessMap) = Inr result \<Longrightarrow>
   AuxiliaryReader_handle reader isAux usesOwn getSubject credentials accessMap
     = Inr (fold (\<lambda>(identifier, subject, modes) result.
                   im_set identifier
                     ((\<lambda>found. case found of None \<Rightarrow> Map.empty | Some ps \<Rightarrow> ps)
                        (im_get result subject))
                     result)
              (findAuxiliary isAux usesOwn getSubject accessMap) result)"
  by (simp add: AuxiliaryReader_handle_def Let_def)

text \<open>
  \<^verbatim>\<open>AuxiliaryReader.handle\<close>, when no subject of an auxiliary identifier it replaces is
  itself such an identifier of the input: for every auxiliary identifier of the input
  that does not use its own authorization, the access map given to the inner reader does
  not hold the identifier and requires of its subject the modes that the input requires
  of the identifier and those it requires of the subject; and the result holds for the
  identifier the PermissionSet that the inner reader returned for the subject, or the
  empty one when it returned none.
\<close>

theorem AuxiliaryReader_subject_permissions:
  assumes "distinct (im_keys accessMap)"
    and "(identifier, modes) \<in> set accessMap"
    and "isAuxiliaryIdentifier identifier" and "\<not> usesOwnAuthorization identifier"
    and "\<forall>a\<in>set (im_keys accessMap).
           isAuxiliaryIdentifier a \<and> \<not> usesOwnAuthorization a \<longrightarrow>
             \<not> (isAuxiliaryIdentifier (getSubjectIdentifier a)
                \<and> \<not> usesOwnAuthorization (getSubjectIdentifier a)
                \<and> getSubjectIdentifier a \<in> set (im_keys accessMap))"
    and "updatedMap =
           updateAccessMap
             (map snd (findAuxiliary isAuxiliaryIdentifier usesOwnAuthorization
                         getSubjectIdentifier accessMap))
             (set (map fst (findAuxiliary isAuxiliaryIdentifier usesOwnAuthorization
                              getSubjectIdentifier accessMap)))
             accessMap"
    and "reader credentials updatedMap = Inr result"
  shows "identifier \<notin> set (im_keys updatedMap)
       \<and> (\<exists>required. im_get updatedMap (getSubjectIdentifier identifier) = Some required
             \<and> modes \<subseteq> required
             \<and> (\<forall>stored. im_get accessMap (getSubjectIdentifier identifier) = Some stored \<longrightarrow>
                   stored \<subseteq> required))
       \<and> (\<exists>final.
            AuxiliaryReader_handle reader isAuxiliaryIdentifier usesOwnAuthorization
              getSubjectIdentifier credentials accessMap = Inr final
            \<and> im_get final identifier
                = Some (case im_get result (getSubjectIdentifier identifier) of
                          None \<Rightarrow> Map.empty | Some permissionSet \<Rightarrow> permissionSet))"
proof -
  let ?auxMap = "findAuxiliary isAuxiliaryIdentifier usesOwnAuthorization getSubjectIdentifier accessMap"
  let ?subject = "getSubjectIdentifier identifier"
  have key: "identifier \<in> set (im_keys accessMap)"
    using assms(2) by (force simp: im_keys_def)
  have keys: "fst ` set ?auxMap
      = {a \<in> set (im_keys accessMap). isAuxiliaryIdentifier a \<and> \<not> usesOwnAuthorization a}"
    by (rule findAuxiliary_keys)
  have subjects: "fst ` set (map snd ?auxMap)
      = getSubjectIdentifier ` {a \<in> set (im_keys accessMap).
                                 isAuxiliaryIdentifier a \<and> \<not> usesOwnAuthorization a}"
    by (rule findAuxiliary_subjects)
  have entry: "(identifier, ?subject, modes) \<in> set ?auxMap"
    using assms(2,3,4) by (force simp: findAuxiliary_def)
  then have nonempty: "?auxMap \<noteq> []" by auto
  have sub_in: "?subject \<in> fst ` set (map snd ?auxMap)"
    unfolding subjects using key assms(3,4) by blast
  have sub_not_aux: "?subject \<notin> fst ` set ?auxMap"
    unfolding keys using key assms(3,4,5) by blast
  have id_not_subject: "identifier \<notin> fst ` set (map snd ?auxMap)"
    unfolding subjects using key assms(3,4,5) by force
  have out1: "identifier \<notin> set (im_keys updatedMap)"
    unfolding assms(6) set_im_keys_updateAccessMap
    using id_not_subject key assms(3,4) keys by auto
  have add: "(?subject, modes) \<in> set (map snd ?auxMap)"
    using entry by force
  let ?required = "\<Union> (snd ` {e \<in> set (map snd ?auxMap). fst e = ?subject})
        \<union> (if ?subject \<in> set (im_keys accessMap) \<and> ?subject \<notin> set (map fst ?auxMap)
           then (case im_get accessMap ?subject of None \<Rightarrow> {} | Some s \<Rightarrow> s) else {})"
  have get: "im_get updatedMap ?subject = Some ?required"
    unfolding assms(6) im_get_updateAccessMap [OF assms(1)]
    using sub_in by simp
  have m: "modes \<subseteq> ?required" using add by force
  have s: "stored \<subseteq> ?required" if "im_get accessMap ?subject = Some stored" for stored
  proof -
    from that have "?subject \<in> set (im_keys accessMap)"
      by (force simp: im_get_def im_keys_def dest!: map_of_SomeD)
    with sub_not_aux that show ?thesis by auto
  qed
  have h: "AuxiliaryReader_handle reader isAuxiliaryIdentifier usesOwnAuthorization
              getSubjectIdentifier credentials accessMap
           = Inr (fold (\<lambda>(identifier, subject, modes) result.
                   im_set identifier
                     ((\<lambda>found. case found of None \<Rightarrow> Map.empty | Some ps \<Rightarrow> ps)
                        (im_get result subject))
                     result) ?auxMap result)"
    by (rule AuxiliaryReader_handle_unfold
          [of isAuxiliaryIdentifier usesOwnAuthorization getSubjectIdentifier accessMap
              reader credentials result, OF nonempty assms(7) [unfolded assms(6)]])
  have d: "distinct (map fst ?auxMap)"
    using assms(1) by (rule findAuxiliary_distinct)
  have at: "im_get (fold (\<lambda>(identifier, subject, modes) result.
                   im_set identifier
                     ((\<lambda>found. case found of None \<Rightarrow> Map.empty | Some ps \<Rightarrow> ps)
                        (im_get result subject))
                     result) ?auxMap result) identifier
              = Some ((\<lambda>found. case found of None \<Rightarrow> Map.empty | Some ps \<Rightarrow> ps)
                        (im_get result ?subject))"
    by (rule fold_setSubject_at
          [where f = "\<lambda>found. case found of None \<Rightarrow> Map.empty | Some ps \<Rightarrow> ps",
           OF entry d sub_not_aux])
  from out1 get m s h at show ?thesis by auto
qed

theorem AuxiliaryReader_subject_permissions_witness:
  "\<exists>final.
     AuxiliaryReader_handle
       (\<lambda>credentials accessMap.
           Inr [(''http://example.com/foo'', [agent \<mapsto> [Read \<mapsto> True, Write \<mapsto> True]])])
       isAclIdentifier (\<lambda>identifier. False) aclSubject [agent \<mapsto> \<lparr>webId = None\<rparr>]
       [(''http://example.com/foo.acl'', {Write}), (''http://example.com/foo'', {Read})]
     = Inr final
     \<and> im_get final ''http://example.com/foo.acl''
         = Some [agent \<mapsto> [Read \<mapsto> True, Write \<mapsto> True]]"
proof -
  let ?accessMap = "[(''http://example.com/foo.acl'', {Write}), (''http://example.com/foo'', {Read})]"
  let ?result = "[(''http://example.com/foo'', [agent \<mapsto> [Read \<mapsto> True, Write \<mapsto> True]])]"
  let ?reader = "\<lambda>(credentials :: CredentialSet) (accessMap :: AccessMap).
                    Inr ?result :: thrown + PermissionMap"
  let ?credentials = "[agent \<mapsto> \<lparr>webId = None\<rparr>]"
  have a1: "isAclIdentifier ''http://example.com/foo.acl''" by code_simp
  have a2: "\<not> isAclIdentifier ''http://example.com/foo''" by code_simp
  have s: "aclSubject ''http://example.com/foo.acl'' = ''http://example.com/foo''" by code_simp
  have 1: "distinct (im_keys ?accessMap)" by (simp add: im_keys_def)
  have 2: "(''http://example.com/foo.acl'', {Write}) \<in> set ?accessMap" by simp
  have 5: "\<forall>a\<in>set (im_keys ?accessMap).
           isAclIdentifier a \<and> \<not> False \<longrightarrow>
             \<not> (isAclIdentifier (aclSubject a) \<and> \<not> False
                \<and> aclSubject a \<in> set (im_keys ?accessMap))"
    using a1 a2 s by (simp add: im_keys_def)
  have g: "im_get ?result (aclSubject ''http://example.com/foo.acl'')
             = Some [agent \<mapsto> [Read \<mapsto> True, Write \<mapsto> True]]"
    unfolding s by (simp add: im_get_def)
  from AuxiliaryReader_subject_permissions
         [of ?accessMap "''http://example.com/foo.acl''" "{Write}" isAclIdentifier
             "\<lambda>identifier. False" aclSubject _ ?reader ?credentials ?result,
          OF 1 2 a1 _ 5 refl refl]
  obtain final where
    h: "AuxiliaryReader_handle ?reader isAclIdentifier (\<lambda>identifier. False) aclSubject
          ?credentials ?accessMap = Inr final"
    and f: "im_get final ''http://example.com/foo.acl''
              = Some (case im_get ?result (aclSubject ''http://example.com/foo.acl'') of
                        None \<Rightarrow> Map.empty | Some permissionSet \<Rightarrow> permissionSet)"
    by auto
  from f have "im_get final ''http://example.com/foo.acl''
                 = Some [agent \<mapsto> [Read \<mapsto> True, Write \<mapsto> True]]"
    unfolding g by simp
  with h show ?thesis by blast
qed

end
